theory Spec2Isabelle
  imports Complex_Main "HOL-Library.AList"
begin

section \<open>Strings of the company normalizer\<close>

text \<open>
  The module \<^verbatim>\<open>src/company_normalizer.py\<close> works on Python \<^verbatim>\<open>str\<close> values. A name is
  modelled as a HOL \<open>string\<close>; one \<open>char\<close> stands for one code point below 256 (the
  Latin-1 range of Python's \<^verbatim>\<open>str\<close>), so \<open>length\<close> counts what Python's \<^verbatim>\<open>len\<close>
  counts. The character classes below are those of CPython on that range:
  \<^verbatim>\<open>str.isspace\<close> (used by \<^verbatim>\<open>strip()\<close>, \<^verbatim>\<open>split()\<close> and the regex class \<^verbatim>\<open>\s\<close>),
  the regex class \<^verbatim>\<open>\w\<close> and \<^verbatim>\<open>str.lower\<close>.
\<close>

definition is_space :: "char \<Rightarrow> bool" where
  "is_space c \<longleftrightarrow>
     c \<in> set [CHR 0x09, CHR 0x0A, CHR 0x0B, CHR 0x0C, CHR 0x0D, CHR 0x1C, CHR 0x1D,
               CHR 0x1E, CHR 0x1F, CHR 0x20, CHR 0x85, CHR 0xA0]"

definition is_ascii_upper :: "char \<Rightarrow> bool" where
  "is_ascii_upper c \<longleftrightarrow> (65::nat) \<le> of_char c \<and> of_char c \<le> (90::nat)"

definition is_ascii_lower :: "char \<Rightarrow> bool" where
  "is_ascii_lower c \<longleftrightarrow> (97::nat) \<le> of_char c \<and> of_char c \<le> (122::nat)"

definition is_ascii_digit :: "char \<Rightarrow> bool" where
  "is_ascii_digit c \<longleftrightarrow> (48::nat) \<le> of_char c \<and> of_char c \<le> (57::nat)"

definition is_latin_upper :: "char \<Rightarrow> bool" where
  \<comment> \<open>the upper-case letters of the range 0xC0..0xDE; 0xD7 is the multiplication sign\<close>
  "is_latin_upper c \<longleftrightarrow>
     (192::nat) \<le> of_char c \<and> of_char c \<le> (222::nat) \<and> of_char c \<noteq> (215::nat)"

definition is_word :: "char \<Rightarrow> bool" where
  \<comment> \<open>the regex class \<^verbatim>\<open>\w\<close>: alphanumeric code points and the underscore\<close>
  "is_word c \<longleftrightarrow>
     is_ascii_digit c \<or> is_ascii_upper c \<or> is_ascii_lower c \<or> c = CHR ''_'' \<or>
     c \<in> set [CHR 0xAA, CHR 0xB2, CHR 0xB3, CHR 0xB5, CHR 0xB9, CHR 0xBA, CHR 0xBC,
               CHR 0xBD, CHR 0xBE] \<or>
     ((192::nat) \<le> of_char c \<and> of_char c \<noteq> (215::nat) \<and> of_char c \<noteq> (247::nat))"

definition lower_char :: "char \<Rightarrow> char" where
  "lower_char c =
     (if is_ascii_upper c \<or> is_latin_upper c then char_of (of_char c + (32::nat)) else c)"

definition lower :: "string \<Rightarrow> string" where
  "lower s = map lower_char s"

definition strip :: "string \<Rightarrow> string" where
  \<comment> \<open>\<^verbatim>\<open>s.strip()\<close>\<close>
  "strip s = rev (dropWhile is_space (rev (dropWhile is_space s)))"

definition strip_chars :: "string \<Rightarrow> string \<Rightarrow> string" where
  \<comment> \<open>\<^verbatim>\<open>s.strip(chars)\<close>\<close>
  "strip_chars cs s =
     rev (dropWhile (\<lambda>c. c \<in> set cs) (rev (dropWhile (\<lambda>c. c \<in> set cs) s)))"

function sub_spaces :: "string \<Rightarrow> string \<Rightarrow> string" where
  \<comment> \<open>\<^verbatim>\<open>re.sub(r"\s+", rep, s)\<close>: every maximal run of whitespace becomes \<open>rep\<close>\<close>
  "sub_spaces rep [] = []"
| "sub_spaces rep (c # cs) =
     (if is_space c then rep @ sub_spaces rep (dropWhile is_space cs)
      else c # sub_spaces rep cs)"
  by pat_completeness auto
termination
  by (relation "measure (\<lambda>(rep, s). length s)")
     (auto simp: length_dropWhile_le less_Suc_eq_le)

function split_ws :: "string \<Rightarrow> string list" where
  \<comment> \<open>\<^verbatim>\<open>s.split()\<close>: the maximal runs of non-whitespace\<close>
  "split_ws [] = []"
| "split_ws (c # cs) =
     (if is_space c then split_ws cs
      else (c # takeWhile (\<lambda>d. \<not> is_space d) cs) #
             split_ws (dropWhile (\<lambda>d. \<not> is_space d) cs))"
  by pat_completeness auto
termination
  by (relation "measure length") (auto simp: length_dropWhile_le less_Suc_eq_le)

fun join :: "string \<Rightarrow> string list \<Rightarrow> string" where
  \<comment> \<open>\<^verbatim>\<open>sep.join(ws)\<close>\<close>
  "join sep [] = []"
| "join sep [w] = w"
| "join sep (w # v # ws) = w @ sep @ join sep (v # ws)"

subsection \<open>Folder names\<close>

definition invalid_chars :: "char list" where
  \<comment> \<open>the character class \<^verbatim>\<open>[<>:"/\\|?*]\<close>\<close>
  "invalid_chars =
     [CHR ''<'', CHR ''>'', CHR '':'', CHR 0x22, CHR ''/'', CHR 0x5C, CHR ''|'', CHR ''?'',
      CHR ''*'']"

definition sub_invalid :: "string \<Rightarrow> string" where
  \<comment> \<open>\<^verbatim>\<open>re.sub(invalid_chars, "_", name)\<close>\<close>
  "sub_invalid s = map (\<lambda>c. if c \<in> set invalid_chars then CHR ''_'' else c) s"

definition sanitize_trimmed :: "string \<Rightarrow> string" where
  \<comment> \<open>the value of \<^verbatim>\<open>name\<close> before the final \<^verbatim>\<open>name or "Unknown"\<close>\<close>
  "sanitize_trimmed name = strip (strip_chars ''_'' (sub_spaces ''_'' (sub_invalid name)))"

definition sanitize_name :: "string \<Rightarrow> string" where
  \<comment> \<open>\<^verbatim>\<open>_sanitize_name\<close>, the same code in \<^verbatim>\<open>CompanyMapping\<close> and \<^verbatim>\<open>CompanyNormalizer\<close>\<close>
  "sanitize_name name =
     (if name = [] then ''Unknown''
      else if sanitize_trimmed name = [] then ''Unknown'' else sanitize_trimmed name)"

subsection \<open>Names normalized for comparison\<close>

definition common_suffixes :: "string list" where
  "common_suffixes =
     [''inc'', ''inc.'', ''incorporated'', ''corp'', ''corp.'', ''corporation'', ''llc'',
      ''l.l.c.'', ''ltd'', ''ltd.'', ''limited'', ''co'', ''co.'', ''company'', ''bank'',
      ''credit union'', ''federal credit union'']"

definition common_prefixes :: "string list" where
  "common_prefixes = [''the'', ''a'', ''an'']"

definition sub_punct :: "string \<Rightarrow> string" where
  \<comment> \<open>\<^verbatim>\<open>re.sub(r"[^\w\s]", " ", s)\<close>\<close>
  "sub_punct s = map (\<lambda>c. if is_word c \<or> is_space c then c else CHR '' '') s"

definition pop_prefixes :: "string list \<Rightarrow> string list" where
  \<comment> \<open>\<^verbatim>\<open>while words and words[0] in self.common_prefixes: words.pop(0)\<close>\<close>
  "pop_prefixes ws = dropWhile (\<lambda>w. w \<in> set common_prefixes) ws"

definition pop_suffixes :: "string list \<Rightarrow> string list" where
  \<comment> \<open>\<^verbatim>\<open>while words and words[-1] in self.common_suffixes: words.pop()\<close>\<close>
  "pop_suffixes ws = rev (dropWhile (\<lambda>w. w \<in> set common_suffixes) (rev ws))"

definition normalize_name :: "string \<Rightarrow> string" where
  "normalize_name name =
     (if name = [] then []
      else join '' '' (pop_suffixes (pop_prefixes (split_ws
             (strip (sub_spaces '' '' (sub_punct (strip (lower name)))))))))"

section \<open>Similarity of two normalized names\<close>

subsection \<open>The sequence-matcher ratio\<close>

text \<open>
  Modelled from the spec: \<^verbatim>\<open>difflib.SequenceMatcher(None, a, b).ratio()\<close> is library
  code outside the repository. The spec describes it as the standard
  longest-matching-blocks ratio, two times the number of matched characters over the
  total length, in the style of Ratcliff and Obershelp: take the longest block common to
  both strings (the one starting earliest in the first string, then earliest in the
  second), and match the pieces to its left and to its right in the same way. (For a
  second string of 200 characters or more the library also sets frequent characters
  aside; the model has no such heuristic.)
\<close>

fun common_prefix_length :: "'a list \<Rightarrow> 'a list \<Rightarrow> nat" where
  "common_prefix_length (x # xs) (y # ys) =
     (if x = y then Suc (common_prefix_length xs ys) else 0)"
| "common_prefix_length _ _ = 0"

definition better_match :: "'a list \<Rightarrow> 'a list \<Rightarrow> nat \<times> nat \<Rightarrow> nat \<times> nat \<times> nat \<Rightarrow> nat \<times> nat \<times> nat" where
  "better_match a b p best =
     (let k = common_prefix_length (drop (fst p) a) (drop (snd p) b)
      in if k > snd (snd best) then (fst p, snd p, k) else best)"

definition find_longest_match :: "'a list \<Rightarrow> 'a list \<Rightarrow> nat \<times> nat \<times> nat" where
  \<comment> \<open>\<open>(i, j, k)\<close>: \<open>a[i:i+k] == b[j:j+k]\<close> with \<open>k\<close> maximal\<close>
  "find_longest_match a b =
     fold (better_match a b) (List.product [0..<length a] [0..<length b]) (0, 0, 0)"

lemma better_match_bounds:
  assumes "fst p < length a" "snd p < length b"
    and "fst best + snd (snd best) \<le> length a" "fst (snd best) + snd (snd best) \<le> length b"
  shows "fst (better_match a b p best) + snd (snd (better_match a b p best)) \<le> length a \<and>
         fst (snd (better_match a b p best)) + snd (snd (better_match a b p best)) \<le> length b"
proof -
  have len: "common_prefix_length xs ys \<le> length xs \<and> common_prefix_length xs ys \<le> length ys"
    for xs ys :: "'a list"
    by (induction xs ys rule: common_prefix_length.induct) auto
  have "common_prefix_length (drop (fst p) a) (drop (snd p) b) \<le> length a - fst p"
    and "common_prefix_length (drop (fst p) a) (drop (snd p) b) \<le> length b - snd p"
    using len [of "drop (fst p) a" "drop (snd p) b"] by simp_all
  with assms show ?thesis
    by (auto simp: better_match_def Let_def)
qed

lemma fold_better_match_bounds:
  assumes "\<forall>p \<in> set ps. fst p < length a \<and> snd p < length b"
    and "fst best + snd (snd best) \<le> length a" "fst (snd best) + snd (snd best) \<le> length b"
  shows "fst (fold (better_match a b) ps best) + snd (snd (fold (better_match a b) ps best))
           \<le> length a \<and>
         fst (snd (fold (better_match a b) ps best)) + snd (snd (fold (better_match a b) ps best))
           \<le> length b"
  using assms
proof (induction ps arbitrary: best)
  case Nil
  then show ?case by simp
next
  case (Cons p ps)
  have "fst (better_match a b p best) + snd (snd (better_match a b p best)) \<le> length a \<and>
        fst (snd (better_match a b p best)) + snd (snd (better_match a b p best)) \<le> length b"
    using Cons.prems by (intro better_match_bounds) auto
  with Cons show ?case by simp
qed

lemma find_longest_match_bounds:
  assumes "find_longest_match a b = (i, j, k)"
  shows "i + k \<le> length a \<and> j + k \<le> length b"
  using fold_better_match_bounds [of "List.product [0..<length a] [0..<length b]" a b "(0, 0, 0)"]
    assms
  by (auto simp: find_longest_match_def)

function matches :: "'a list \<Rightarrow> 'a list \<Rightarrow> nat" where
  \<comment> \<open>the total size of the matching blocks\<close>
  "matches a b =
     (case find_longest_match a b of
        (i, j, k) \<Rightarrow>
          if k = 0 then 0
          else matches (take i a) (take j b) + k + matches (drop (i + k) a) (drop (j + k) b))"
  by pat_completeness auto
termination
proof (relation "measure (\<lambda>(a, b). length a)")
  show "wf (measure (\<lambda>(a, b). length a))" by simp
next
  fix a b :: "'a list" and x i y j k
  assume "(i, y) = find_longest_match a b" "(j, k) = y" "k \<noteq> 0"
  then have "i + k \<le> length a"
    using find_longest_match_bounds [of a b i j k] by simp
  with \<open>k \<noteq> 0\<close> show "((take i a, take j b), (a, b)) \<in> measure (\<lambda>(a, b). length a)"
    by simp
next
  fix a b :: "'a list" and x i y j k
  assume "(i, y) = find_longest_match a b" "(j, k) = y" "k \<noteq> 0"
  then have "i + k \<le> length a"
    using find_longest_match_bounds [of a b i j k] by simp
  with \<open>k \<noteq> 0\<close> show "((drop (i + k) a, drop (j + k) b), (a, b)) \<in> measure (\<lambda>(a, b). length a)"
    by simp
qed

declare matches.simps [simp del]

definition ratio :: "string \<Rightarrow> string \<Rightarrow> real" where
  "ratio a b =
     (if length a + length b = 0 then 1
      else 2 * real (matches a b) / real (length a + length b))"

subsection \<open>The combined score\<close>

text \<open>
  Python's floats are modelled by real numbers: the score is the exact value of the
  expression, without rounding.
\<close>

definition word_overlap :: "string \<Rightarrow> string \<Rightarrow> real" where
  \<comment> \<open>\<^verbatim>\<open>len(words1.intersection(words2)) / len(words1.union(words2))\<close>\<close>
  "word_overlap name1 name2 =
     real (card (set (split_ws name1) \<inter> set (split_ws name2))) /
     real (card (set (split_ws name1) \<union> set (split_ws name2)))"

definition subset_bonus :: "real \<Rightarrow> real" where
  "subset_bonus overlap = (if overlap > 0.8 then 0.2 else 0.0)"

definition calculate_similarity :: "string \<Rightarrow> string \<Rightarrow> real" where
  "calculate_similarity name1 name2 =
     (if name1 = [] \<or> name2 = [] then 0.0
      else if set (split_ws name1) \<noteq> {} \<and> set (split_ws name2) \<noteq> {}
        then min 1.0 (0.6 * ratio name1 name2 + 0.3 * word_overlap name1 name2 +
                      subset_bonus (word_overlap name1 name2))
        else ratio name1 name2)"

section \<open>The company registry\<close>

subsection \<open>Proper case\<close>

definition upper_char :: "char \<Rightarrow> string" where
  \<comment> \<open>\<^verbatim>\<open>str.upper\<close> on one character: the sharp s becomes two letters. The upper-case
      forms of 0xB5 and 0xFF lie above 255; the model leaves these two characters as
      they are (neither form is an ASCII letter).\<close>
  "upper_char c =
     (if is_ascii_lower c then [char_of (of_char c - (32::nat))]
      else if c = CHR 0xDF then ''SS''
      else if (224::nat) \<le> of_char c \<and> of_char c \<le> (254::nat) \<and> of_char c \<noteq> (247::nat)
        then [char_of (of_char c - (32::nat))]
      else [c])"

definition upper :: "string \<Rightarrow> string" where
  "upper s = concat (map upper_char s)"

definition title_char :: "char \<Rightarrow> string" where
  "title_char c = (if c = CHR 0xDF then [CHR ''S'', CHR ''s''] else upper_char c)"

definition capitalize :: "string \<Rightarrow> string" where
  \<comment> \<open>\<^verbatim>\<open>str.capitalize\<close>: the first character in title case, the rest in lower case\<close>
  "capitalize s = (case s of [] \<Rightarrow> [] | c # cs \<Rightarrow> title_char c @ lower cs)"

function re_split_from :: "string \<Rightarrow> string \<Rightarrow> string list" where
  \<comment> \<open>\<open>cur\<close> is the text read since the last delimiter\<close>
  "re_split_from cur [] = [cur]"
| "re_split_from cur (c # cs) =
     (if is_space c
        then cur # (c # takeWhile is_space cs) # re_split_from [] (dropWhile is_space cs)
      else if c \<in> set ''-_&/'' then cur # [c] # re_split_from [] cs
      else re_split_from (cur @ [c]) cs)"
  by pat_completeness auto
termination
  by (relation "measure (\<lambda>(cur, s). length s)")
     (auto simp: length_dropWhile_le less_Suc_eq_le)

definition re_split :: "string \<Rightarrow> string list" where
  \<comment> \<open>\<^verbatim>\<open>re.split(r"(\s+|[-_&/])", name)\<close>: the texts and, between them, the delimiters\<close>
  "re_split name = re_split_from [] name"

definition proper_part :: "string \<Rightarrow> string" where
  "proper_part part =
     (if strip part \<noteq> [] then
        (if lower part \<in> set [''of'', ''and'', ''the'', ''for'', ''in'', ''on'', ''at'', ''by'']
           then lower part
         else if upper part \<in> set [''LLC'', ''INC'', ''CORP'', ''LTD'', ''USA'', ''US'', ''UK'']
           then upper part
         else capitalize part)
      else part)"

definition proper_case :: "string \<Rightarrow> string" where
  "proper_case name = (if name = [] then name else concat (map proper_part (re_split name)))"

definition create_canonical_name :: "string \<Rightarrow> string" where
  "create_canonical_name company_name = proper_case (strip company_name)"

definition folder_name_to_company_name :: "string \<Rightarrow> string" where
  "folder_name_to_company_name folder =
     proper_case (map (\<lambda>c. if c = CHR ''_'' then CHR '' '' else c) folder)"

subsection \<open>Mappings and the registry state\<close>

text \<open>
  \<^verbatim>\<open>company_mappings\<close> and \<^verbatim>\<open>normalized_to_canonical\<close> are Python dicts, which keep
  the order in which keys were first inserted: association lists, written with
  \<open>AList.update\<close> (a present key keeps its place, a new key goes to the end). The set
  \<^verbatim>\<open>variations\<close> is a list without repetitions in some iteration order.
\<close>

record CompanyMapping =
  canonical_name :: string
  variations :: "string list"
  folder_name :: string

definition new_mapping :: "string \<Rightarrow> string \<Rightarrow> CompanyMapping" where
  \<comment> \<open>the dataclass constructor with \<^verbatim>\<open>__post_init__\<close>; \<open>folder = []\<close> is the default\<close>
  "new_mapping canonical folder =
     \<lparr>canonical_name = canonical, variations = [],
      folder_name = (if folder = [] then sanitize_name canonical else folder)\<rparr>"

definition set_add :: "'a \<Rightarrow> 'a list \<Rightarrow> 'a list" where
  "set_add x xs = (if x \<in> set xs then xs else xs @ [x])"

record normalizer =
  similarity_threshold :: real
  company_mappings :: "(string \<times> CompanyMapping) list"
  normalized_to_canonical :: "(string \<times> string) list"

datatype py_error = KeyError | OSError

definition add_new_company :: "normalizer \<Rightarrow> string \<Rightarrow> string \<Rightarrow> normalizer" where
  "add_new_company st canonical original =
     (let mapping = new_mapping canonical [];
          mapping = mapping\<lparr>variations := set_add canonical (set_add original (variations mapping))\<rparr>
      in st\<lparr>company_mappings := AList.update (lower canonical) mapping (company_mappings st),
            normalized_to_canonical :=
              AList.update (normalize_name canonical) canonical (normalized_to_canonical st)\<rparr>)"

definition has_variation :: "string \<Rightarrow> string \<times> CompanyMapping \<Rightarrow> bool" where
  \<comment> \<open>\<^verbatim>\<open>company_name.lower() in [v.lower() for v in mapping.variations]\<close>\<close>
  "has_variation company_name e \<longleftrightarrow> lower company_name \<in> set (map lower (variations (snd e)))"

definition find_exact_match :: "normalizer \<Rightarrow> string \<Rightarrow> string option" where
  "find_exact_match st company_name =
     (case map_of (company_mappings st) (lower company_name) of
        Some m \<Rightarrow> Some (canonical_name m)
      | None \<Rightarrow>
          (case List.find (has_variation company_name) (company_mappings st) of
             Some e \<Rightarrow> Some (canonical_name (snd e))
           | None \<Rightarrow> None))"

definition consider_score :: "real \<Rightarrow> string \<Rightarrow> real \<Rightarrow> string option \<times> real \<Rightarrow> string option \<times> real" where
  \<comment> \<open>\<^verbatim>\<open>if score > best_score and score >= self.similarity_threshold: ...\<close>\<close>
  "consider_score threshold canonical score best =
     (if score > snd best \<and> score \<ge> threshold then (Some canonical, score) else best)"

definition consider_mapping :: "real \<Rightarrow> string \<Rightarrow> string \<times> CompanyMapping \<Rightarrow> string option \<times> real \<Rightarrow> string option \<times> real" where
  \<comment> \<open>one round of the loop over \<^verbatim>\<open>self.company_mappings.items()\<close>\<close>
  "consider_mapping threshold normalized_input e best =
     fold (\<lambda>variation. consider_score threshold (canonical_name (snd e))
             (calculate_similarity normalized_input (normalize_name variation)))
       (variations (snd e))
       (consider_score threshold (canonical_name (snd e))
          (calculate_similarity normalized_input (normalize_name (canonical_name (snd e)))) best)"

definition find_fuzzy_match :: "normalizer \<Rightarrow> string \<Rightarrow> string option" where
  "find_fuzzy_match st company_name =
     fst (fold (consider_mapping (similarity_threshold st) (normalize_name company_name))
            (company_mappings st) (None, 0.0))"

definition truthy :: "string option \<Rightarrow> bool" where
  \<comment> \<open>Python's truth value of an \<^verbatim>\<open>Optional[str]\<close>: neither \<^verbatim>\<open>None\<close> nor the empty string\<close>
  "truthy r \<longleftrightarrow> (case r of None \<Rightarrow> False | Some s \<Rightarrow> s \<noteq> [])"

definition reserved :: "string \<Rightarrow> bool" where
  \<comment> \<open>\<^verbatim>\<open>not company_name or company_name.lower() in ["unknown", "null", "none"]\<close>\<close>
  "reserved company_name \<longleftrightarrow>
     company_name = [] \<or> lower company_name \<in> set [''unknown'', ''null'', ''none'']"

definition add_variation :: "normalizer \<Rightarrow> string \<Rightarrow> string \<Rightarrow> py_error + normalizer" where
  \<comment> \<open>\<^verbatim>\<open>self.company_mappings[canonical.lower()].variations.add(company_name)\<close>\<close>
  "add_variation st canonical company_name =
     (case map_of (company_mappings st) (lower canonical) of
        None \<Rightarrow> Inl KeyError
      | Some m \<Rightarrow>
          Inr (st\<lparr>company_mappings :=
                    AList.update (lower canonical)
                      (m\<lparr>variations := set_add company_name (variations m)\<rparr>)
                      (company_mappings st)\<rparr>))"

definition normalize_company_name :: "normalizer \<Rightarrow> string \<Rightarrow> py_error + string \<times> normalizer" where
  "normalize_company_name st company_name =
     (if reserved company_name then Inr (''Unknown'', st)
      else if truthy (find_exact_match st company_name)
        then Inr (the (find_exact_match st company_name), st)
      else if truthy (find_fuzzy_match st company_name)
        then (case add_variation st (the (find_fuzzy_match st company_name)) company_name of
                Inl err \<Rightarrow> Inl err
              | Inr st' \<Rightarrow> Inr (the (find_fuzzy_match st company_name), st'))
      else Inr (create_canonical_name company_name,
                add_new_company st (create_canonical_name company_name) company_name))"

definition get_folder_name :: "normalizer \<Rightarrow> string \<Rightarrow> string" where
  "get_folder_name st canonical =
     (case map_of (company_mappings st) (lower canonical) of
        Some mapping \<Rightarrow> folder_name mapping
      | None \<Rightarrow> sanitize_name canonical)"

section \<open>The output directory\<close>

text \<open>
  The output directory is a tree: a file carries its content, a directory lists its
  entries by name, in the order in which the operating system lists them. A path is the
  list of its components.
\<close>

datatype 'a node = File 'a | Dir "(string \<times> 'a node) list"

fun lookup :: "'a node \<Rightarrow> string list \<Rightarrow> 'a node option" where
  "lookup n [] = Some n"
| "lookup (File x) (d # ds) = None"
| "lookup (Dir es) (d # ds) = (case map_of es d of None \<Rightarrow> None | Some c \<Rightarrow> lookup c ds)"

definition is_pdf :: "string \<Rightarrow> bool" where
  \<comment> \<open>the name matches the pattern \<^verbatim>\<open>*.pdf\<close>\<close>
  "is_pdf name \<longleftrightarrow> take 4 (rev name) = rev ''.pdf''"

fun rglob_pdf :: "'a node \<Rightarrow> nat"
  and rglob_pdf_entries :: "(string \<times> 'a node) list \<Rightarrow> nat" where
  \<comment> \<open>\<^verbatim>\<open>sum(1 for _ in folder.rglob("*.pdf"))\<close>: the entries below the folder, files
      or directories, whose name matches\<close>
  "rglob_pdf (File x) = 0"
| "rglob_pdf (Dir es) = rglob_pdf_entries es"
| "rglob_pdf_entries [] = 0"
| "rglob_pdf_entries (e # es) =
     (if is_pdf (fst e) then 1 else 0) + rglob_pdf (snd e) + rglob_pdf_entries es"

fun rglob_files :: "'a node \<Rightarrow> (string list \<times> 'a) list"
  and files_here :: "(string \<times> 'a node) list \<Rightarrow> (string list \<times> 'a) list"
  and files_below :: "(string \<times> 'a node) list \<Rightarrow> (string list \<times> 'a) list" where
  \<comment> \<open>the files that \<^verbatim>\<open>folder.rglob("*")\<close> yields, each with its path relative to the
      folder: the entries of a directory first, then the walk of its subdirectories\<close>
  "rglob_files (File x) = []"
| "rglob_files (Dir es) = files_here es @ files_below es"
| "files_here [] = []"
| "files_here (e # es) =
     (case snd e of File x \<Rightarrow> ([fst e], x) # files_here es | Dir ds \<Rightarrow> files_here es)"
| "files_below [] = []"
| "files_below (e # es) =
     (case snd e of
        File x \<Rightarrow> files_below es
      | Dir ds \<Rightarrow> map (\<lambda>f. (fst e # fst f, snd f)) (rglob_files (Dir ds)) @ files_below es)"

subsection \<open>Names that are free in the target directory\<close>

definition last_dot :: "string \<Rightarrow> nat option" where
  \<comment> \<open>\<^verbatim>\<open>name.rfind(".")\<close>\<close>
  "last_dot name =
     (if CHR ''.'' \<in> set name
        then Some (length name - 1 - length (takeWhile (\<lambda>c. c \<noteq> CHR ''.'') (rev name)))
      else None)"

definition path_suffix :: "string \<Rightarrow> string" where
  \<comment> \<open>\<^verbatim>\<open>PurePath.suffix\<close>\<close>
  "path_suffix name =
     (case last_dot name of
        Some i \<Rightarrow> if 0 < i \<and> i < length name - 1 then drop i name else []
      | None \<Rightarrow> [])"

definition path_stem :: "string \<Rightarrow> string" where
  \<comment> \<open>\<^verbatim>\<open>PurePath.stem\<close>\<close>
  "path_stem name =
     (case last_dot name of
        Some i \<Rightarrow> if 0 < i \<and> i < length name - 1 then take i name else name
      | None \<Rightarrow> name)"

fun string_of_nat :: "nat \<Rightarrow> string" where
  "string_of_nat n =
     (if n < 10 then [char_of (48 + n)]
      else string_of_nat (n div 10) @ [char_of (48 + n mod 10)])"

declare string_of_nat.simps [simp del]

definition numbered :: "string \<Rightarrow> string \<Rightarrow> nat \<Rightarrow> string" where
  \<comment> \<open>\<^verbatim>\<open>f"{stem}_{counter}{suffix}"\<close>\<close>
  "numbered stem suffix counter = stem @ ''_'' @ string_of_nat counter @ suffix"

lemma string_of_nat_length: "0 < length (string_of_nat n)"
  by (subst string_of_nat.simps) simp

lemma string_of_nat_inj: "string_of_nat m = string_of_nat n \<Longrightarrow> m = n"
proof (induction m arbitrary: n rule: string_of_nat.induct)
  case (1 m)
  show ?case
  proof (cases "m < 10")
    case True
    then have m: "string_of_nat m = [char_of (48 + m)]"
      by (subst string_of_nat.simps) simp
    show ?thesis
    proof (cases "n < 10")
      case True
      then have "string_of_nat n = [char_of (48 + n)]"
        by (subst string_of_nat.simps) simp
      with m "1.prems" have "(48 + m) mod 256 = (48 + n) mod 256"
        by simp
      with True \<open>m < 10\<close> show ?thesis by simp
    next
      case False
      then have "string_of_nat n = string_of_nat (n div 10) @ [char_of (48 + n mod 10)]"
        by (subst string_of_nat.simps) simp
      then have "length (string_of_nat n) > 1"
        using string_of_nat_length [of "n div 10"] by simp
      with m "1.prems" show ?thesis by simp
    qed
  next
    case False
    then have m: "string_of_nat m = string_of_nat (m div 10) @ [char_of (48 + m mod 10)]"
      by (subst string_of_nat.simps) simp
    show ?thesis
    proof (cases "n < 10")
      case True
      then have "string_of_nat n = [char_of (48 + n)]"
        by (subst string_of_nat.simps) simp
      moreover have "length (string_of_nat m) > 1"
        using m string_of_nat_length [of "m div 10"] by simp
      ultimately show ?thesis using "1.prems" by simp
    next
      case nge: False
      then have n: "string_of_nat n = string_of_nat (n div 10) @ [char_of (48 + n mod 10)]"
        by (subst string_of_nat.simps) simp
      from m n "1.prems" have pre: "string_of_nat (m div 10) = string_of_nat (n div 10)"
        and lst: "(48 + m mod 10) mod 256 = (48 + n mod 10) mod 256"
        by simp_all
      from "1.IH" [OF False pre] have "m div 10 = n div 10" .
      moreover have "48 + m mod 10 < 256" "48 + n mod 10 < 256"
        by (simp_all add: less_trans [OF mod_less_divisor])
      with lst have "m mod 10 = n mod 10"
        by (simp only: mod_less add_left_cancel)
      ultimately show ?thesis
        by (metis div_mult_mod_eq)
    qed
  qed
qed

lemma numbered_inj: "numbered stem suffix j = numbered stem suffix k \<Longrightarrow> j = k"
  by (simp add: numbered_def string_of_nat_inj)

lemma finite_numbered: "finite {k. numbered stem suffix k \<in> set names}"
proof -
  have "inj (numbered stem suffix)"
    by (rule injI) (rule numbered_inj)
  then have "finite (numbered stem suffix -` set names)"
    by (intro finite_vimageI) simp_all
  then show ?thesis by (simp add: vimage_def)
qed

function unique_target :: "string list \<Rightarrow> string \<Rightarrow> string \<Rightarrow> string \<Rightarrow> nat \<Rightarrow> string" where
  \<comment> \<open>\<^verbatim>\<open>while target_path.exists(): target_path = ...; counter += 1\<close>, where \<open>names\<close> are
      the entries of the target's directory\<close>
  "unique_target names stem suffix target counter =
     (if target \<in> set names
        then unique_target names stem suffix (numbered stem suffix counter) (Suc counter)
      else target)"
  by pat_completeness auto
termination
proof (relation "measure (\<lambda>(names, stem, suffix, target, counter).
          2 * card {k. counter \<le> k \<and> numbered stem suffix k \<in> set names} +
          (if target \<in> set names then 1 else 0))")
  show "wf (measure (\<lambda>(names, stem, suffix, target, counter).
          2 * card {k. counter \<le> k \<and> numbered stem suffix k \<in> set names} +
          (if target \<in> set names then 1 else 0)))"
    by simp
next
  fix names :: "string list" and stem suffix target :: string and counter :: nat
  assume t: "target \<in> set names"
  let ?A = "{k. counter \<le> k \<and> numbered stem suffix k \<in> set names}"
  let ?B = "{k. Suc counter \<le> k \<and> numbered stem suffix k \<in> set names}"
  have fin: "finite ?A"
    using finite_numbered [of stem suffix names] by (rule rev_finite_subset) auto
  have sub: "?B \<subseteq> ?A" by auto
  have "2 * card ?B + (if numbered stem suffix counter \<in> set names then 1 else 0) < 2 * card ?A + 1"
  proof (cases "numbered stem suffix counter \<in> set names")
    case True
    then have "counter \<in> ?A" "counter \<notin> ?B" by auto
    with sub have "?B \<subset> ?A" by blast
    with fin have "card ?B < card ?A" by (rule psubset_card_mono)
    with True show ?thesis by simp
  next
    case False
    from fin sub have "card ?B \<le> card ?A" by (rule card_mono)
    with False show ?thesis by simp
  qed
  with t show "((names, stem, suffix, numbered stem suffix counter, Suc counter),
          (names, stem, suffix, target, counter))
        \<in> measure (\<lambda>(names, stem, suffix, target, counter).
            2 * card {k. counter \<le> k \<and> numbered stem suffix k \<in> set names} +
            (if target \<in> set names then 1 else 0))"
    by simp
qed

declare unique_target.simps [simp del]

definition free_target :: "string list \<Rightarrow> string \<Rightarrow> string" where
  \<comment> \<open>the name under which a file called \<open>name\<close> arrives in a directory with the
      entries \<open>names\<close>\<close>
  "free_target names name =
     (if name \<in> set names
        then unique_target names (path_stem name) (path_suffix name) name 1
      else name)"

subsection \<open>Moving the files of one folder into another\<close>

fun place :: "string list \<Rightarrow> 'a \<Rightarrow> 'a node \<Rightarrow> py_error + 'a node" where
  \<comment> \<open>\<^verbatim>\<open>target_path.parent.mkdir(parents=True, exist_ok=True)\<close>, which fails where a
      file stands in the way, then the search for a free name, then the move\<close>
  "place [] x n = Inl OSError"
| "place (d # ds) x (File y) = Inl OSError"
| "place [name] x (Dir es) = Inr (Dir (es @ [(free_target (map fst es) name, File x)]))"
| "place (d # e # ds) x (Dir es) =
     (case map_of es d of
        None \<Rightarrow>
          (case place (e # ds) x (Dir []) of
             Inl err \<Rightarrow> Inl err
           | Inr c \<Rightarrow> Inr (Dir (es @ [(d, c)])))
      | Some c \<Rightarrow>
          (case place (e # ds) x c of
             Inl err \<Rightarrow> Inl err
           | Inr c' \<Rightarrow> Inr (Dir (AList.update d c' es))))"

fun remove_path :: "string list \<Rightarrow> 'a node \<Rightarrow> 'a node" where
  "remove_path [] n = n"
| "remove_path (d # ds) (File y) = File y"
| "remove_path [name] (Dir es) = Dir (AList.delete name es)"
| "remove_path (d # e # ds) (Dir es) =
     (case map_of es d of
        None \<Rightarrow> Dir es
      | Some c \<Rightarrow> Dir (AList.update d (remove_path (e # ds) c) es))"

definition move_file :: "string \<Rightarrow> string \<Rightarrow> string list \<times> 'a \<Rightarrow> 'a node \<Rightarrow> py_error + 'a node" where
  \<comment> \<open>one round of the loop: the file \<open>f\<close> of the merge folder goes to the keep folder\<close>
  "move_file keep_name merge_name f out =
     (case place (keep_name # fst f) (snd f) out of
        Inl err \<Rightarrow> Inl err
      | Inr out' \<Rightarrow> Inr (remove_path (merge_name # fst f) out'))"

fun move_all :: "string \<Rightarrow> string \<Rightarrow> (string list \<times> 'a) list \<Rightarrow> 'a node \<Rightarrow> bool \<times> 'a node" where
  \<comment> \<open>the loop over the files; \<open>False\<close> with the directory as it is when a move fails\<close>
  "move_all keep_name merge_name [] out = (True, out)"
| "move_all keep_name merge_name (f # fs) out =
     (case move_file keep_name merge_name f out of
        Inl err \<Rightarrow> (False, out)
      | Inr out' \<Rightarrow> move_all keep_name merge_name fs out')"

definition rmtree :: "string \<Rightarrow> 'a node \<Rightarrow> py_error + 'a node" where
  \<comment> \<open>\<^verbatim>\<open>shutil.rmtree(merge_folder)\<close>: the folder must be a directory\<close>
  "rmtree name out =
     (case lookup out [name] of
        Some (Dir es) \<Rightarrow> Inr (remove_path [name] out)
      | _ \<Rightarrow> Inl OSError)"

subsection \<open>Merging two company folders\<close>

text \<open>
  The folder of a mapping is the entry of the output directory named by its
  \<^verbatim>\<open>folder_name\<close>: folder names are names of entries of the output directory, as
  \<^verbatim>\<open>scan_existing_companies\<close> produces them. \<^verbatim>\<open>rglob\<close> lists each directory once, when
  the walk reaches it, and the loop only takes files out of the merge folder, so the
  files it moves are those the folder holds when the loop starts.
\<close>

definition keep_first :: "CompanyMapping \<Rightarrow> CompanyMapping \<Rightarrow> nat \<Rightarrow> nat \<Rightarrow> bool" where
  \<comment> \<open>the condition under which \<^verbatim>\<open>folder1\<close> is kept and \<^verbatim>\<open>folder2\<close> merged into it\<close>
  "keep_first company1 company2 count1 count2 \<longleftrightarrow>
     count1 > count2 \<or>
     (count1 = count2 \<and> length (canonical_name company1) \<le> length (canonical_name company2))"

definition merge_plan :: "'a node \<Rightarrow> CompanyMapping \<Rightarrow> CompanyMapping \<Rightarrow> (string \<times> string \<times> 'a node) option" where
  \<comment> \<open>the first part of \<^verbatim>\<open>_merge_company_folders\<close>: \<open>None\<close> when a folder is missing,
      else the name of the folder to keep, the name of the folder to merge into it, and
      the latter folder\<close>
  "merge_plan out company1 company2 =
     (case (lookup out [folder_name company1], lookup out [folder_name company2]) of
        (Some folder1, Some folder2) \<Rightarrow>
          (let count1 = rglob_pdf folder1;
               count2 = rglob_pdf folder2
           in if keep_first company1 company2 count1 count2
              then Some (folder_name company1, folder_name company2, folder2)
              else Some (folder_name company2, folder_name company1, folder1))
      | _ \<Rightarrow> None)"

definition merge_company_folders :: "'a node \<Rightarrow> CompanyMapping \<Rightarrow> CompanyMapping \<Rightarrow> bool \<times> 'a node" where
  \<comment> \<open>the result of the call and the output directory after it; every exception of
      the \<^verbatim>\<open>try\<close> block ends the call with \<^verbatim>\<open>False\<close>\<close>
  "merge_company_folders out company1 company2 =
     (case merge_plan out company1 company2 of
        None \<Rightarrow> (False, out)
      | Some (keep_name, merge_name, merge_folder) \<Rightarrow>
          (case move_all keep_name merge_name (rglob_files merge_folder) out of
             (False, out') \<Rightarrow> (False, out')
           | (True, out') \<Rightarrow>
               (case rmtree merge_name out' of
                  Inl err \<Rightarrow> (False, out')
                | Inr out'' \<Rightarrow> (True, out''))))"

subsection \<open>Scanning the output directory and merging duplicates\<close>

definition scan_entry :: "string \<times> 'a node \<Rightarrow> normalizer \<Rightarrow> normalizer" where
  \<comment> \<open>one round of the loop over \<^verbatim>\<open>output_dir.iterdir()\<close>\<close>
  "scan_entry item st =
     (case snd item of
        File x \<Rightarrow> st
      | Dir es \<Rightarrow>
          if fst item \<noteq> ''Unknown'' then
            (let company_name = folder_name_to_company_name (fst item);
                 mapping = new_mapping company_name (fst item);
                 mapping = mapping\<lparr>variations :=
                             set_add (fst item) (set_add company_name (variations mapping))\<rparr>
             in st\<lparr>company_mappings :=
                      AList.update (lower company_name) mapping (company_mappings st),
                    normalized_to_canonical :=
                      AList.update (normalize_name company_name) company_name
                        (normalized_to_canonical st)\<rparr>)
          else st)"

definition scan_existing_companies :: "normalizer \<Rightarrow> 'a node option \<Rightarrow> py_error + normalizer" where
  \<comment> \<open>\<open>None\<close>: the output directory does not exist; \<^verbatim>\<open>iterdir\<close> fails on a file\<close>
  "scan_existing_companies st output_dir =
     (case output_dir of
        None \<Rightarrow> Inr st
      | Some (File x) \<Rightarrow> Inl OSError
      | Some (Dir es) \<Rightarrow> Inr (fold scan_entry es st))"

fun find_duplicates :: "CompanyMapping list \<Rightarrow> (CompanyMapping \<times> CompanyMapping \<times> real) list" where
  \<comment> \<open>the loop over \<^verbatim>\<open>enumerate(companies)\<close> and \<^verbatim>\<open>companies[i + 1:]\<close>\<close>
  "find_duplicates [] = []"
| "find_duplicates (company1 # rest) =
     map (\<lambda>company2. (company1, company2,
            calculate_similarity (normalize_name (canonical_name company1))
              (normalize_name (canonical_name company2))))
       (filter (\<lambda>company2.
            calculate_similarity (normalize_name (canonical_name company1))
              (normalize_name (canonical_name company2)) > 0.85) rest)
     @ find_duplicates rest"

fun merge_duplicates :: "(CompanyMapping \<times> CompanyMapping \<times> real) list \<Rightarrow> nat \<times> 'a node \<Rightarrow> nat \<times> 'a node" where
  \<comment> \<open>the loop over \<^verbatim>\<open>duplicates\<close>, with \<^verbatim>\<open>merged_count\<close> and the output directory\<close>
  "merge_duplicates [] acc = acc"
| "merge_duplicates (dup # dups) acc =
     (case merge_company_folders (snd acc) (fst dup) (fst (snd dup)) of
        (True, out') \<Rightarrow> merge_duplicates dups (Suc (fst acc), out')
      | (False, out') \<Rightarrow> merge_duplicates dups (fst acc, out'))"

definition auto_merge_duplicates :: "normalizer \<Rightarrow> 'a node option \<Rightarrow> py_error + normalizer \<times> 'a node option" where
  "auto_merge_duplicates st output_dir =
     (case output_dir of
        None \<Rightarrow> Inr (st, None)
      | Some out \<Rightarrow>
          (let duplicates = find_duplicates (map snd (company_mappings st))
           in if duplicates = [] then Inr (st, Some out)
              else
                (case merge_duplicates duplicates (0, out) of
                   (merged_count, out') \<Rightarrow>
                     if merged_count > 0 then
                       (case scan_existing_companies
                               (st\<lparr>company_mappings := [], normalized_to_canonical := []\<rparr>)
                               (Some out') of
                          Inl err \<Rightarrow> Inl err
                        | Inr st' \<Rightarrow> Inr (st', Some out'))
                     else Inr (st, Some out'))))"

definition init_normalizer :: "'a node option option \<Rightarrow> real \<Rightarrow> bool \<Rightarrow> py_error + normalizer \<times> 'a node option" where
  \<comment> \<open>\<^verbatim>\<open>__init__\<close>; \<open>output_dir = None\<close>: no output directory is given\<close>
  "init_normalizer output_dir threshold auto_merge =
     (let st = \<lparr>similarity_threshold = threshold, company_mappings = [],
                normalized_to_canonical = []\<rparr>
      in case output_dir of
           None \<Rightarrow> Inr (st, None)
         | Some dir \<Rightarrow>
             (case scan_existing_companies st dir of
                Inl err \<Rightarrow> Inl err
              | Inr st' \<Rightarrow> if auto_merge then auto_merge_duplicates st' dir else Inr (st', dir)))"

section \<open>Normalization of a name with a multi-word suffix\<close>

text \<open>
  Claim C1. \<^verbatim>\<open>_normalize_name\<close> compares single tokens with the suffix set, so the
  entries \<^verbatim>\<open>credit union\<close> and \<^verbatim>\<open>federal credit union\<close> never equal a token: the name
  \<^verbatim>\<open>Navy Federal Credit Union\<close> keeps all four words, and its normal form differs from
  that of \<^verbatim>\<open>Navy\<close>.
\<close>

theorem normalize_name_credit_union:
  "normalize_name ''Navy Federal Credit Union'' = ''navy federal credit union'' \<and>
   normalize_name ''Navy'' = ''navy'' \<and>
   normalize_name ''Navy Federal Credit Union'' \<noteq> normalize_name ''Navy''"
  by code_simp

section \<open>Folder names are safe\<close>

lemma set_sub_spaces: "set (sub_spaces rep s) \<subseteq> set rep \<union> set s"
proof (induction rep s rule: sub_spaces.induct)
  case (1 rep)
  then show ?case by simp
next
  case (2 rep c cs)
  show ?case
  proof (cases "is_space c")
    case True
    with 2 have "set (sub_spaces rep (dropWhile is_space cs)) \<subseteq> set rep \<union> set (dropWhile is_space cs)"
      by simp
    moreover have "set (dropWhile is_space cs) \<subseteq> set cs"
      by (auto dest: set_dropWhileD)
    ultimately show ?thesis using True by auto
  next
    case False
    with 2 show ?thesis by auto
  qed
qed

lemma set_strip: "set (strip s) \<subseteq> set s"
  by (auto simp: strip_def dest!: set_dropWhileD)

lemma set_strip_chars: "set (strip_chars cs s) \<subseteq> set s"
  by (auto simp: strip_chars_def dest!: set_dropWhileD)

lemma sub_invalid_valid: "c \<in> set (sub_invalid s) \<Longrightarrow> c \<notin> set invalid_chars"
  by (auto simp: sub_invalid_def invalid_chars_def)

lemma sanitize_trimmed_valid: "c \<in> set (sanitize_trimmed s) \<Longrightarrow> c \<notin> set invalid_chars"
proof -
  assume "c \<in> set (sanitize_trimmed s)"
  then have "c \<in> set ''_'' \<union> set (sub_invalid s)"
    unfolding sanitize_trimmed_def
    using set_strip set_strip_chars set_sub_spaces by blast
  then show ?thesis
    using sub_invalid_valid by (auto simp: invalid_chars_def)
qed

text \<open>
  Claim C9. \<^verbatim>\<open>_sanitize_name\<close> is a function of its argument alone (in the model it is a
  HOL function: equal inputs give equal outputs). For every name its result contains none
  of the characters \<^verbatim>\<open>< > : " / \ | ? *\<close>, it is never empty, and it is \<^verbatim>\<open>Unknown\<close>
  whenever nothing is left after the replacements and the trimming.
\<close>

theorem sanitize_name_valid:
  "(\<forall>c \<in> set (sanitize_name name). c \<notin> set invalid_chars) \<and>
   (sanitize_trimmed name = [] \<longrightarrow> sanitize_name name = ''Unknown'') \<and>
   sanitize_name name \<noteq> []"
proof -
  have "\<forall>c \<in> set ''Unknown''. c \<notin> set invalid_chars"
    by (simp add: invalid_chars_def)
  then show ?thesis
    using sanitize_trimmed_valid by (auto simp: sanitize_name_def)
qed

theorem sanitize_name_valid_witness:
  "sanitize_trimmed ''<?>'' = [] \<and> sanitize_name ''<?>'' = ''Unknown'' \<and>
   sanitize_name ''A/B  c: d_'' = ''A_B_c__d'' \<and>
   CHR ''/'' \<notin> set (sanitize_name ''A/B  c: d_'')"
proof -
  have t: "sanitize_trimmed ''<?>'' = []" by code_simp
  have e: "sanitize_name ''A/B  c: d_'' = ''A_B_c__d''" by code_simp
  show ?thesis
    using sanitize_name_valid [of "''<?>''"] sanitize_name_valid [of "''A/B  c: d_''"] t e
    by (simp add: invalid_chars_def)
qed

section \<open>The similarity score and its range\<close>

lemma matches_le: "matches a b \<le> length a \<and> matches a b \<le> length b"
proof (induction a b rule: matches.induct)
  case (1 a b)
  obtain i j k where f: "find_longest_match a b = (i, j, k)"
    by (cases "find_longest_match a b") auto
  have b: "i + k \<le> length a \<and> j + k \<le> length b"
    using find_longest_match_bounds [OF f] .
  show ?case
  proof (cases "k = 0")
    case True
    with f show ?thesis by (simp add: matches.simps [of a b])
  next
    case False
    have l: "matches (take i a) (take j b) \<le> length (take i a) \<and>
             matches (take i a) (take j b) \<le> length (take j b)"
      using "1.IH"(1) [OF f [symmetric] refl False] .
    have r: "matches (drop (i + k) a) (drop (j + k) b) \<le> length (drop (i + k) a) \<and>
             matches (drop (i + k) a) (drop (j + k) b) \<le> length (drop (j + k) b)"
      using "1.IH"(2) [OF f [symmetric] refl False] .
    have "matches (take i a) (take j b) + k + matches (drop (i + k) a) (drop (j + k) b)
            \<le> length a \<and>
          matches (take i a) (take j b) + k + matches (drop (i + k) a) (drop (j + k) b)
            \<le> length b"
      using l r b by simp arith
    with False f show ?thesis
      by (simp add: matches.simps [of a b])
  qed
qed

lemma ratio_range: "0 \<le> ratio a b \<and> ratio a b \<le> 1"
proof (cases "length a + length b = 0")
  case True
  then show ?thesis by (simp add: ratio_def)
next
  case False
  have "2 * matches a b \<le> length a + length b"
    using matches_le [of a b] by simp
  then have "2 * real (matches a b) \<le> real (length a + length b)"
    by (metis of_nat_le_iff of_nat_mult of_nat_numeral)
  moreover have "0 < real (length a + length b)"
    using False by (simp only: of_nat_0_less_iff)
  ultimately have "2 * real (matches a b) / real (length a + length b) \<le> 1"
    by (simp only: divide_le_eq_1_pos)
  with False show ?thesis by (simp add: ratio_def)
qed

lemma word_overlap_range: "0 \<le> word_overlap a b \<and> word_overlap a b \<le> 1"
proof -
  have "card (set (split_ws a) \<inter> set (split_ws b)) \<le> card (set (split_ws a) \<union> set (split_ws b))"
    by (intro card_mono) auto
  then have "real (card (set (split_ws a) \<inter> set (split_ws b)))
               \<le> real (card (set (split_ws a) \<union> set (split_ws b)))"
    by simp
  then show ?thesis
    unfolding word_overlap_def
    by (cases "card (set (split_ws a) \<union> set (split_ws b)) = 0")
       (simp_all only: divide_le_eq_1_pos of_nat_0_less_iff of_nat_0 div_by_0
          zero_le_divide_iff of_nat_0_le_iff, simp_all)
qed

lemma calculate_similarity_range: "0 \<le> calculate_similarity a b \<and> calculate_similarity a b \<le> 1"
  using ratio_range [of a b] word_overlap_range [of a b]
  by (auto simp: calculate_similarity_def subset_bonus_def)

text \<open>
  Claim C2. The score of two names is 0 when either is empty; it is the sequence-matcher
  ratio alone when both are non-empty and one of them has no words; otherwise it is
  \<open>min 1 (0.6 * basic + 0.3 * overlap + bonus)\<close>, where \<open>basic\<close> is the ratio (twice
  the matched characters over the total length), \<open>overlap\<close> is the number of common
  words over the number of all words, and \<open>bonus\<close> is 0.2 when \<open>overlap > 0.8\<close> and 0
  otherwise. In every case the score lies between 0 and 1.
\<close>

theorem calculate_similarity_score:
  "(name1 = [] \<or> name2 = [] \<longrightarrow> calculate_similarity name1 name2 = 0) \<and>
   (name1 \<noteq> [] \<and> name2 \<noteq> [] \<and> (set (split_ws name1) = {} \<or> set (split_ws name2) = {}) \<longrightarrow>
      calculate_similarity name1 name2 = ratio name1 name2) \<and>
   (name1 \<noteq> [] \<and> name2 \<noteq> [] \<and> set (split_ws name1) \<noteq> {} \<and> set (split_ws name2) \<noteq> {} \<longrightarrow>
      calculate_similarity name1 name2 =
        min 1 (0.6 * ratio name1 name2 +
               0.3 * (real (card (set (split_ws name1) \<inter> set (split_ws name2))) /
                      real (card (set (split_ws name1) \<union> set (split_ws name2)))) +
               (if real (card (set (split_ws name1) \<inter> set (split_ws name2))) /
                   real (card (set (split_ws name1) \<union> set (split_ws name2))) > 0.8
                then 0.2 else 0))) \<and>
   (name1 \<noteq> [] \<longrightarrow>
      ratio name1 name2 = 2 * real (matches name1 name2) / real (length name1 + length name2)) \<and>
   0 \<le> calculate_similarity name1 name2 \<and> calculate_similarity name1 name2 \<le> 1"
  using calculate_similarity_range [of name1 name2]
  by (auto simp: calculate_similarity_def word_overlap_def subset_bonus_def ratio_def)

theorem calculate_similarity_score_witness:
  "calculate_similarity [] ''chase'' = 0 \<and>
   calculate_similarity '' '' ''a b'' = ratio '' '' ''a b'' \<and>
   calculate_similarity ''chase'' ''chase bank'' =
     min 1 (0.6 * ratio ''chase'' ''chase bank'' +
            0.3 * (real (card (set (split_ws ''chase'') \<inter> set (split_ws ''chase bank''))) /
                   real (card (set (split_ws ''chase'') \<union> set (split_ws ''chase bank'')))) +
            (if real (card (set (split_ws ''chase'') \<inter> set (split_ws ''chase bank''))) /
                real (card (set (split_ws ''chase'') \<union> set (split_ws ''chase bank''))) > 0.8
             then 0.2 else 0)) \<and>
   ratio ''chase'' ''chase bank'' = 2 / 3 \<and>
   calculate_similarity ''chase'' ''chase bank'' = 11 / 20 \<and>
   calculate_similarity ''chase bank'' ''chase bank'' = 1"
proof -
  have a: "set (split_ws '' '') = {}" by code_simp
  have b: "set (split_ws ''chase'') \<noteq> {}" "set (split_ws ''chase bank'') \<noteq> {}"
    by code_simp+
  have n: "'' '' \<noteq> []" "''a b'' \<noteq> []" "''chase'' \<noteq> []" "''chase bank'' \<noteq> []"
    by simp_all
  have d: "ratio ''chase'' ''chase bank'' = 2 / 3" by code_simp
  have e: "calculate_similarity ''chase'' ''chase bank'' = 11 / 20" by code_simp
  have f: "calculate_similarity ''chase bank'' ''chase bank'' = 1" by code_simp
  have 1: "calculate_similarity [] ''chase'' = 0"
    using calculate_similarity_score [of "[]" "''chase''"] by blast
  have 2: "calculate_similarity '' '' ''a b'' = ratio '' '' ''a b''"
    using calculate_similarity_score [of "'' ''" "''a b''"] a n by blast
  have 3: "calculate_similarity ''chase'' ''chase bank'' =
     min 1 (0.6 * ratio ''chase'' ''chase bank'' +
            0.3 * (real (card (set (split_ws ''chase'') \<inter> set (split_ws ''chase bank''))) /
                   real (card (set (split_ws ''chase'') \<union> set (split_ws ''chase bank'')))) +
            (if real (card (set (split_ws ''chase'') \<inter> set (split_ws ''chase bank''))) /
                real (card (set (split_ws ''chase'') \<union> set (split_ws ''chase bank''))) > 0.8
             then 0.2 else 0))"
    using calculate_similarity_score [of "''chase''" "''chase bank''"] b n by blast
  from 1 2 3 d e f show ?thesis by blast
qed

section \<open>Fuzzy matching selects the best mapping\<close>

text \<open>
  The scores that \<^verbatim>\<open>_find_fuzzy_match\<close> computes for one mapping are the similarity of the
  normalized input to the normalized canonical name and to every normalized variation;
  the score of the mapping is their maximum, and the best score is the maximum over all
  mappings (0 when there is none: every score is at least 0).
\<close>

definition mapping_scores :: "string \<Rightarrow> string \<times> CompanyMapping \<Rightarrow> real list" where
  "mapping_scores n e =
     calculate_similarity n (normalize_name (canonical_name (snd e))) #
     map (\<lambda>v. calculate_similarity n (normalize_name v)) (variations (snd e))"

definition mapping_score :: "string \<Rightarrow> string \<times> CompanyMapping \<Rightarrow> real" where
  "mapping_score n e = Max (set (mapping_scores n e))"

definition best_score :: "string \<Rightarrow> (string \<times> CompanyMapping) list \<Rightarrow> real" where
  "best_score n es = Max (insert 0 (set (map (mapping_score n) es)))"

lemma fold_consider_score:
  "fold (consider_score thr c) ss best =
     (if Max (insert (snd best) (set ss)) > snd best \<and> Max (insert (snd best) (set ss)) \<ge> thr
      then (Some c, Max (insert (snd best) (set ss))) else best)"
proof (induction ss arbitrary: best)
  case Nil
  then show ?case by simp
next
  case (Cons s ss)
  let ?b = "consider_score thr c s best"
  have m: "Max (insert (snd best) (set (s # ss))) = max s (Max (insert (snd best) (set ss)))"
    by (simp add: insert_commute)
  show ?case
  proof (cases "s > snd best \<and> s \<ge> thr")
    case True
    then have b: "?b = (Some c, s)" by (simp add: consider_score_def)
    define M where "M = Max (insert s (set ss))"
    have sM: "s \<le> M" by (simp add: M_def)
    have "Max (insert (snd best) (set (s # ss))) = max (snd best) M"
      by (simp add: M_def)
    with sM True have MM: "Max (insert (snd best) (set (s # ss))) = M"
      by (simp add: max_def)
    from Cons.IH [of ?b] b
    have "fold (consider_score thr c) (s # ss) best =
            (if M > s \<and> M \<ge> thr then (Some c, M) else (Some c, s))"
      by (simp add: M_def)
    moreover note MM sM True
    ultimately show ?thesis
      by (auto simp del: set_simps fold_simps)
  next
    case False
    then have b: "?b = best" by (auto simp: consider_score_def)
    define M where "M = Max (insert (snd best) (set ss))"
    have le: "snd best \<le> M" by (simp add: M_def)
    have m': "Max (insert (snd best) (set (s # ss))) = max s M"
      using m by (simp add: M_def)
    from Cons.IH [of best] b
    have f: "fold (consider_score thr c) (s # ss) best =
            (if M > snd best \<and> M \<ge> thr then (Some c, M) else best)"
      by (simp add: M_def)
    from False have "s \<le> snd best \<or> s < thr" by auto
    then have "(max s M > snd best \<and> max s M \<ge> thr) = (M > snd best \<and> M \<ge> thr)"
      "max s M > snd best \<and> max s M \<ge> thr \<Longrightarrow> max s M = M"
      using le by (auto simp: max_def split: if_splits)
    with f show ?thesis
      unfolding m' by (auto simp del: set_simps fold_simps)
  qed
qed


lemma consider_mapping_eq:
  "consider_mapping thr n e best =
     (if mapping_score n e > snd best \<and> mapping_score n e \<ge> thr
      then (Some (canonical_name (snd e)), mapping_score n e) else best)"
proof -
  let ?c = "canonical_name (snd e)"
  let ?s0 = "calculate_similarity n (normalize_name ?c)"
  let ?ss = "map (\<lambda>v. calculate_similarity n (normalize_name v)) (variations (snd e))"
  have "consider_mapping thr n e best = fold (consider_score thr ?c) (?s0 # ?ss) best"
    by (simp add: consider_mapping_def fold_map comp_def)
  also have "\<dots> = (if Max (insert (snd best) (set (?s0 # ?ss))) > snd best \<and>
                        Max (insert (snd best) (set (?s0 # ?ss))) \<ge> thr
                     then (Some ?c, Max (insert (snd best) (set (?s0 # ?ss)))) else best)"
    by (rule fold_consider_score)
  also have "Max (insert (snd best) (set (?s0 # ?ss))) = max (snd best) (mapping_score n e)"
    by (simp add: mapping_score_def mapping_scores_def)
  finally show ?thesis
    by (auto simp: max_def split: if_splits)
qed

lemma fold_consider_mapping:
  "fold (consider_mapping thr n) es best =
     (if Max (insert (snd best) (set (map (mapping_score n) es))) > snd best \<and>
         Max (insert (snd best) (set (map (mapping_score n) es))) \<ge> thr
      then (map_option (\<lambda>e. canonical_name (snd e))
              (List.find (\<lambda>e. mapping_score n e =
                    Max (insert (snd best) (set (map (mapping_score n) es)))) es),
            Max (insert (snd best) (set (map (mapping_score n) es))))
      else best)"
proof (induction es arbitrary: best)
  case Nil
  then show ?case by simp
next
  case (Cons e es)
  let ?b = "consider_mapping thr n e best"
  define s where "s = mapping_score n e"
  show ?case
  proof (cases "s > snd best \<and> s \<ge> thr")
    case True
    then have b: "?b = (Some (canonical_name (snd e)), s)"
      by (simp add: consider_mapping_eq s_def)
    define M where "M = Max (insert s (set (map (mapping_score n) es)))"
    have sM: "s \<le> M" by (simp add: M_def)
    have "Max (insert (snd best) (set (map (mapping_score n) (e # es)))) = max (snd best) M"
      by (simp add: M_def s_def)
    with sM True have MM: "Max (insert (snd best) (set (map (mapping_score n) (e # es)))) = M"
      by (simp add: max_def)
    from Cons.IH [of ?b] b
    have "fold (consider_mapping thr n) (e # es) best =
            (if M > s \<and> M \<ge> thr
             then (map_option (\<lambda>e. canonical_name (snd e))
                     (List.find (\<lambda>e. mapping_score n e = M) es), M)
             else (Some (canonical_name (snd e)), s))"
      by (simp add: M_def)
    moreover have "List.find (\<lambda>e. mapping_score n e = M) (e # es) =
        (if M > s then List.find (\<lambda>e. mapping_score n e = M) es else Some e)"
      using sM by (auto simp: s_def)
    moreover note sM True
    ultimately show ?thesis
      unfolding MM by (auto simp del: set_simps fold_simps find.simps list.map)
  next
    case False
    then have b: "?b = best" by (auto simp: consider_mapping_eq s_def)
    define M where "M = Max (insert (snd best) (set (map (mapping_score n) es)))"
    have le: "snd best \<le> M" by (simp add: M_def)
    have "insert (snd best) (set (map (mapping_score n) (e # es))) =
            insert s (insert (snd best) (set (map (mapping_score n) es)))"
      by (auto simp: s_def)
    then have m': "Max (insert (snd best) (set (map (mapping_score n) (e # es)))) = max s M"
      by (simp add: M_def)
    from Cons.IH [of best] b
    have f: "fold (consider_mapping thr n) (e # es) best =
            (if M > snd best \<and> M \<ge> thr
             then (map_option (\<lambda>e. canonical_name (snd e))
                     (List.find (\<lambda>e. mapping_score n e = M) es), M)
             else best)"
      by (simp add: M_def)
    from False have "s \<le> snd best \<or> s < thr" by auto
    then have c: "(max s M > snd best \<and> max s M \<ge> thr) = (M > snd best \<and> M \<ge> thr)"
      and d: "max s M > snd best \<and> max s M \<ge> thr \<Longrightarrow> max s M = M \<and> s \<noteq> M"
      using le by (auto simp: max_def split: if_splits)
    have "M > snd best \<and> M \<ge> thr \<Longrightarrow>
        List.find (\<lambda>e. mapping_score n e = M) (e # es) = List.find (\<lambda>e. mapping_score n e = M) es"
      using c d by (auto simp: s_def)
    with f c d show ?thesis
      unfolding m' by (auto simp del: set_simps fold_simps find.simps list.map)
  qed
qed


lemma mapping_score_nonneg: "0 \<le> mapping_score n e"
proof -
  have "calculate_similarity n (normalize_name (canonical_name (snd e))) \<le> mapping_score n e"
    by (simp add: mapping_score_def mapping_scores_def)
  with calculate_similarity_range [of n "normalize_name (canonical_name (snd e))"]
  show ?thesis by linarith
qed

lemma find_fuzzy_match_eq:
  "find_fuzzy_match st x =
     (if 0 < best_score (normalize_name x) (company_mappings st) \<and>
         similarity_threshold st \<le> best_score (normalize_name x) (company_mappings st)
      then map_option (\<lambda>e. canonical_name (snd e))
             (List.find (\<lambda>e. mapping_score (normalize_name x) e =
                    best_score (normalize_name x) (company_mappings st)) (company_mappings st))
      else None)"
  unfolding find_fuzzy_match_def fold_consider_mapping best_score_def
  by simp

section \<open>The invariant of the registry\<close>

text \<open>
  Every state that the normalizer reaches keeps three facts: no key occurs twice, every
  mapping is stored under its lower-cased canonical name, and a mapping with an empty
  canonical name (made from a raw name of whitespace only) has only variations whose
  normal form is empty. A state is reached from the empty registry by scanning a
  directory (whose entries have non-empty names; the content of its files plays no
  role) and by normalizing names.
\<close>

definition mappings_inv :: "(string \<times> CompanyMapping) list \<Rightarrow> bool" where
  "mappings_inv es \<longleftrightarrow>
     distinct (map fst es) \<and>
     (\<forall>e \<in> set es.
        fst e = lower (canonical_name (snd e)) \<and>
        (canonical_name (snd e) = [] \<longrightarrow>
           (\<forall>v \<in> set (variations (snd e)). normalize_name v = [])))"

definition registry_inv :: "normalizer \<Rightarrow> bool" where
  "registry_inv st \<longleftrightarrow> mappings_inv (company_mappings st)"

inductive reachable :: "normalizer \<Rightarrow> bool" where
  fresh: "reachable \<lparr>similarity_threshold = threshold, company_mappings = [],
                     normalized_to_canonical = []\<rparr>"
| scanned: "reachable st \<Longrightarrow> \<forall>item \<in> set es. fst item \<noteq> [] \<Longrightarrow>
            scan_existing_companies st (Some (Dir es :: unit node)) = Inr st' \<Longrightarrow> reachable st'"
| normalized: "reachable st \<Longrightarrow> normalize_company_name st x = Inr (c, st') \<Longrightarrow> reachable st'"

lemma set_update_subset: "set (AList.update k v al) \<subseteq> insert (k, v) (set al)"
  by (induction al) auto

lemma mappings_inv_update:
  assumes "mappings_inv es" and "k = lower (canonical_name m)"
    and "canonical_name m = [] \<longrightarrow> (\<forall>v \<in> set (variations m). normalize_name v = [])"
  shows "mappings_inv (AList.update k m es)"
proof -
  have "distinct (map fst (AList.update k m es))"
    using assms(1) by (simp add: mappings_inv_def distinct_update)
  moreover have "\<forall>e \<in> set (AList.update k m es).
        fst e = lower (canonical_name (snd e)) \<and>
        (canonical_name (snd e) = [] \<longrightarrow>
           (\<forall>v \<in> set (variations (snd e)). normalize_name v = []))"
  proof
    fix e assume "e \<in> set (AList.update k m es)"
    then have "e = (k, m) \<or> e \<in> set es"
      using set_update_subset [of k m es] by auto
    then show "fst e = lower (canonical_name (snd e)) \<and>
        (canonical_name (snd e) = [] \<longrightarrow>
           (\<forall>v \<in> set (variations (snd e)). normalize_name v = []))"
      using assms by (auto simp: mappings_inv_def)
  qed
  ultimately show ?thesis by (simp add: mappings_inv_def)
qed

lemma mappings_inv_map_of:
  assumes "mappings_inv es" "e \<in> set es"
  shows "map_of es (lower (canonical_name (snd e))) = Some (snd e)"
proof -
  from assms have "distinct (map fst es)" and "fst e = lower (canonical_name (snd e))"
    by (auto simp: mappings_inv_def)
  moreover from assms(2) have "(fst e, snd e) \<in> set es" by simp
  ultimately show ?thesis by (metis map_of_is_SomeI)
qed


subsection \<open>Names without letters\<close>

lemma strip_empty_iff: "strip s = [] \<longleftrightarrow> (\<forall>c \<in> set s. is_space c)"
proof
  assume "strip s = []"
  then have "\<forall>c \<in> set (dropWhile is_space s). is_space c"
    by (simp add: strip_def dropWhile_eq_Nil_conv)
  then have "dropWhile is_space s = []"
    by (metis hd_dropWhile list.set_sel(1))
  then show "\<forall>c \<in> set s. is_space c"
    by (simp add: dropWhile_eq_Nil_conv)
next
  assume "\<forall>c \<in> set s. is_space c"
  then have d: "dropWhile is_space s = []" by (simp add: dropWhile_eq_Nil_conv)
  show "strip s = []" unfolding strip_def d by simp
qed

lemma lower_char_space: "is_space c \<Longrightarrow> lower_char c = c"
  by (auto simp: is_space_def lower_char_def is_ascii_upper_def is_latin_upper_def)

lemma normalize_name_blank:
  assumes "strip s = []"
  shows "normalize_name s = []"
proof -
  from assms have "\<forall>c \<in> set s. is_space c" by (simp add: strip_empty_iff)
  then have "lower s = s"
    by (simp add: lower_def lower_char_space map_idI)
  with assms have e: "strip (lower s) = []" by simp
  have "strip [] = []" by (simp add: strip_def)
  then show ?thesis
    unfolding normalize_name_def e
    by (simp add: sub_punct_def pop_prefixes_def pop_suffixes_def)
qed

lemma concat_re_split_from: "concat (re_split_from cur s) = cur @ s"
  by (induction cur s rule: re_split_from.induct) auto

lemma upper_char_nonempty: "upper_char c \<noteq> []"
  by (simp add: upper_char_def)

lemma proper_part_nonempty: "p \<noteq> [] \<Longrightarrow> proper_part p \<noteq> []"
  by (cases p) (auto simp: proper_part_def lower_def capitalize_def title_char_def
      upper_char_nonempty)

lemma proper_case_nonempty:
  assumes "s \<noteq> []"
  shows "proper_case s \<noteq> []"
proof -
  have "concat (re_split s) = s"
    by (simp add: re_split_def concat_re_split_from)
  with assms obtain p where p: "p \<in> set (re_split s)" "p \<noteq> []"
    by (metis concat_eq_Nil_conv)
  then have "proper_part p \<in> set (map proper_part (re_split s))" by simp
  moreover have "proper_part p \<noteq> []" using p(2) by (rule proper_part_nonempty)
  ultimately have "concat (map proper_part (re_split s)) \<noteq> []"
    by (metis concat_eq_Nil_conv)
  with assms show ?thesis by (simp add: proper_case_def)
qed

subsection \<open>Every step keeps the invariant\<close>

lemma add_new_company_inv:
  assumes "registry_inv st"
  shows "registry_inv (add_new_company st (create_canonical_name x) x)"
proof -
  let ?c = "create_canonical_name x"
  let ?m = "(new_mapping ?c [])\<lparr>variations := set_add ?c (set_add x (variations (new_mapping ?c [])))\<rparr>"
  have cn: "canonical_name ?m = ?c" by (simp add: new_mapping_def)
  have vs: "set (variations ?m) = {x, ?c}"
    by (auto simp: new_mapping_def set_add_def)
  have "?c = [] \<longrightarrow> (\<forall>v \<in> set (variations ?m). normalize_name v = [])"
  proof
    assume e: "?c = []"
    then have "strip x = []"
      using proper_case_nonempty [of "strip x"] by (auto simp: create_canonical_name_def)
    then have "normalize_name x = []" by (rule normalize_name_blank)
    moreover have "normalize_name [] = []" by (simp add: normalize_name_def)
    ultimately show "\<forall>v \<in> set (variations ?m). normalize_name v = []"
      using e vs by auto
  qed
  with cn have "mappings_inv (AList.update (lower ?c) ?m (company_mappings st))"
    using assms by (intro mappings_inv_update) (simp_all add: registry_inv_def)
  then show ?thesis
    by (simp add: registry_inv_def add_new_company_def Let_def)
qed

lemma add_variation_inv:
  assumes "registry_inv st" "e \<in> set (company_mappings st)" "canonical_name (snd e) \<noteq> []"
  shows "add_variation st (canonical_name (snd e)) x =
           Inr (st\<lparr>company_mappings :=
                    AList.update (fst e) ((snd e)\<lparr>variations := set_add x (variations (snd e))\<rparr>)
                      (company_mappings st)\<rparr>) \<and>
         registry_inv (st\<lparr>company_mappings :=
                    AList.update (fst e) ((snd e)\<lparr>variations := set_add x (variations (snd e))\<rparr>)
                      (company_mappings st)\<rparr>)"
proof -
  have k: "fst e = lower (canonical_name (snd e))"
    using assms by (auto simp: registry_inv_def mappings_inv_def)
  have m: "map_of (company_mappings st) (lower (canonical_name (snd e))) = Some (snd e)"
    using assms by (intro mappings_inv_map_of) (simp_all add: registry_inv_def)
  have "mappings_inv (AList.update (fst e)
          ((snd e)\<lparr>variations := set_add x (variations (snd e))\<rparr>) (company_mappings st))"
    using assms k by (intro mappings_inv_update) (simp_all add: registry_inv_def)
  with k m show ?thesis
    by (simp add: add_variation_def registry_inv_def)
qed

lemma scan_entry_inv:
  assumes "registry_inv st" "fst item \<noteq> []"
  shows "registry_inv (scan_entry item st)"
proof (cases "snd item")
  case (File x)
  with assms show ?thesis by (simp add: scan_entry_def)
next
  case (Dir ds)
  let ?c = "folder_name_to_company_name (fst item)"
  let ?m = "(new_mapping ?c (fst item))\<lparr>variations :=
              set_add (fst item) (set_add ?c (variations (new_mapping ?c (fst item))))\<rparr>"
  have "?c \<noteq> []"
    using assms(2) by (simp add: folder_name_to_company_name_def proper_case_nonempty)
  moreover have "canonical_name ?m = ?c" by (simp add: new_mapping_def)
  ultimately have "mappings_inv (AList.update (lower ?c) ?m (company_mappings st))"
    using assms(1) by (intro mappings_inv_update) (simp_all add: registry_inv_def)
  with Dir assms(1) show ?thesis
    by (simp add: scan_entry_def registry_inv_def Let_def)
qed

lemma fold_scan_entry_inv:
  "registry_inv st \<Longrightarrow> \<forall>item \<in> set es. fst item \<noteq> [] \<Longrightarrow> registry_inv (fold scan_entry es st)"
  by (induction es arbitrary: st) (simp_all add: scan_entry_inv)

lemma truthy_Some: "truthy r \<longleftrightarrow> (\<exists>c. r = Some c \<and> c \<noteq> [])"
  by (cases r) (simp_all add: truthy_def)

lemma find_exact_match_in:
  assumes "find_exact_match st x = Some c"
  shows "\<exists>e \<in> set (company_mappings st).
           canonical_name (snd e) = c \<and> (fst e = lower x \<or> has_variation x e)"
proof (cases "map_of (company_mappings st) (lower x)")
  case (Some m)
  then have "(lower x, m) \<in> set (company_mappings st)" by (rule map_of_SomeD)
  moreover from Some assms have "canonical_name m = c" by (simp add: find_exact_match_def)
  ultimately show ?thesis by force
next
  case None
  with assms obtain e where f: "List.find (has_variation x) (company_mappings st) = Some e"
    and c: "canonical_name (snd e) = c"
    by (auto simp: find_exact_match_def split: option.splits)
  from f have "e \<in> set (company_mappings st)" "has_variation x e"
    by (auto simp: find_Some_iff)
  with c show ?thesis by blast
qed

lemma find_fuzzy_match_in:
  assumes "find_fuzzy_match st x = Some c" "registry_inv st"
  shows "\<exists>e \<in> set (company_mappings st). canonical_name (snd e) = c \<and>
           (c \<noteq> [] \<longrightarrow> 0 < mapping_score (normalize_name x) e)"
proof -
  from assms(1) obtain e where
    f: "List.find (\<lambda>e. mapping_score (normalize_name x) e =
          best_score (normalize_name x) (company_mappings st)) (company_mappings st) = Some e"
    and c: "canonical_name (snd e) = c"
    and b: "0 < best_score (normalize_name x) (company_mappings st)"
    by (auto simp: find_fuzzy_match_eq split: if_splits)
  from f have "e \<in> set (company_mappings st)"
    and "mapping_score (normalize_name x) e = best_score (normalize_name x) (company_mappings st)"
    by (auto simp: find_Some_iff)
  with b c show ?thesis by auto
qed

lemma normalize_company_name_inv:
  assumes "registry_inv st"
  shows "\<exists>c st'. normalize_company_name st x = Inr (c, st') \<and> registry_inv st'"
proof (cases "reserved x \<or> truthy (find_exact_match st x)")
  case True
  with assms show ?thesis by (auto simp: normalize_company_name_def)
next
  case False
  show ?thesis
  proof (cases "truthy (find_fuzzy_match st x)")
    case True
    then obtain c where c: "find_fuzzy_match st x = Some c" "c \<noteq> []"
      by (auto simp: truthy_Some)
    with assms obtain e where e: "e \<in> set (company_mappings st)" "canonical_name (snd e) = c"
      using find_fuzzy_match_in by blast
    from add_variation_inv [OF assms e(1), of x] e(2) c(2) c(1) True False
    show ?thesis by (auto simp: normalize_company_name_def)
  next
    case nf: False
    with False assms show ?thesis
      by (auto simp: normalize_company_name_def add_new_company_inv)
  qed
qed

lemma reachable_registry_inv: "reachable st \<Longrightarrow> registry_inv st"
proof (induction rule: reachable.induct)
  case (fresh threshold)
  show ?case by (simp add: registry_inv_def mappings_inv_def)
next
  case (scanned st es st')
  then show ?case by (auto simp: scan_existing_companies_def fold_scan_entry_inv)
next
  case (normalized st x c st')
  then show ?case using normalize_company_name_inv [of st x] by auto
qed


definition st_fresh :: normalizer where
  "st_fresh = \<lparr>similarity_threshold = 0.8, company_mappings = [],
                normalized_to_canonical = []\<rparr>"

definition st_acme :: "real \<Rightarrow> normalizer" where
  \<comment> \<open>the state after \<^verbatim>\<open>normalize_company_name("Acme")\<close> on an empty registry\<close>
  "st_acme threshold = \<lparr>similarity_threshold = threshold,
     company_mappings =
       [(''acme'', \<lparr>canonical_name = ''Acme'', variations = [''Acme''], folder_name = ''Acme''\<rparr>)],
     normalized_to_canonical = [(''acme'', ''Acme'')]\<rparr>"

lemma st_acme_reachable: "reachable (st_acme threshold)"
proof -
  have "normalize_company_name
          \<lparr>similarity_threshold = threshold, company_mappings = [],
             normalized_to_canonical = []\<rparr> ''Acme'' = Inr (''Acme'', st_acme threshold)"
    unfolding st_acme_def by code_simp
  with reachable.fresh [of threshold] show ?thesis by (rule reachable.normalized)
qed



section \<open>Totality of the public functions\<close>

text \<open>
  Claim C8. In every reachable state \<^verbatim>\<open>normalize_company_name\<close> returns a name for every
  string (the only statement that can raise, the dictionary access of the fuzzy branch,
  always finds its key); a name that is empty or, without regard to case, one of
  \<^verbatim>\<open>unknown\<close>, \<^verbatim>\<open>null\<close>, \<^verbatim>\<open>none\<close> gives \<^verbatim>\<open>Unknown\<close> and leaves the state as it is.
  \<^verbatim>\<open>get_folder_name\<close> has no statement that can raise, and for a name under whose lower
  case no mapping is registered it returns the sanitized name.
\<close>

theorem normalize_total:
  assumes "reachable st"
  shows "(\<exists>c st'. normalize_company_name st x = Inr (c, st')) \<and>
         (x = [] \<or> lower x \<in> {''unknown'', ''null'', ''none''} \<longrightarrow>
            normalize_company_name st x = Inr (''Unknown'', st)) \<and>
         (lower canonical \<notin> fst ` set (company_mappings st) \<longrightarrow>
            get_folder_name st canonical = sanitize_name canonical)"
proof -
  from assms have "registry_inv st" by (rule reachable_registry_inv)
  then have "\<exists>c st'. normalize_company_name st x = Inr (c, st')"
    using normalize_company_name_inv [of st x] by blast
  moreover have "x = [] \<or> lower x \<in> {''unknown'', ''null'', ''none''} \<longrightarrow>
      normalize_company_name st x = Inr (''Unknown'', st)"
    by (auto simp: normalize_company_name_def reserved_def)
  moreover have "lower canonical \<notin> fst ` set (company_mappings st) \<longrightarrow>
      get_folder_name st canonical = sanitize_name canonical"
  proof
    assume "lower canonical \<notin> fst ` set (company_mappings st)"
    then have "map_of (company_mappings st) (lower canonical) = None"
      by (simp add: map_of_eq_None_iff)
    then show "get_folder_name st canonical = sanitize_name canonical"
      by (simp add: get_folder_name_def)
  qed
  ultimately show ?thesis by blast
qed

theorem normalize_total_witness:
  "(\<exists>c st'. normalize_company_name (st_acme 0.8) ''Acme Corp'' = Inr (c, st')) \<and>
   normalize_company_name (st_acme 0.8) ''NULL'' = Inr (''Unknown'', st_acme 0.8) \<and>
   normalize_company_name (st_acme 0.8) [] = Inr (''Unknown'', st_acme 0.8) \<and>
   get_folder_name (st_acme 0.8) ''A/B: c'' = ''A_B__c''"
proof -
  have l: "lower ''NULL'' \<in> {''unknown'', ''null'', ''none''}" by code_simp
  have k: "lower ''A/B: c'' \<notin> fst ` set (company_mappings (st_acme 0.8))"
    unfolding st_acme_def by code_simp
  have s: "sanitize_name ''A/B: c'' = ''A_B__c''" by code_simp
  from normalize_total [OF st_acme_reachable [of "0.8"], of "''Acme Corp''" "''A/B: c''"] k s
  have 1: "\<exists>c st'. normalize_company_name (st_acme 0.8) ''Acme Corp'' = Inr (c, st')"
    and 4: "get_folder_name (st_acme 0.8) ''A/B: c'' = ''A_B__c''"
    by simp_all
  from normalize_total [OF st_acme_reachable [of "0.8"], of "''NULL''" "[]"] l
  have 2: "normalize_company_name (st_acme 0.8) ''NULL'' = Inr (''Unknown'', st_acme 0.8)"
    by blast
  from normalize_total [OF st_acme_reachable [of "0.8"], of "[]" "[]"]
  have 3: "normalize_company_name (st_acme 0.8) [] = Inr (''Unknown'', st_acme 0.8)"
    by blast
  from 1 2 3 4 show ?thesis by blast
qed

section \<open>Normalizing a canonical name again\<close>

lemma update_mem: "(k, v) \<in> set (AList.update k v al)"
  by (induction al) auto

lemma normalize_company_name_registered:
  assumes "registry_inv st" "normalize_company_name st x = Inr (c, st')" "\<not> reserved x"
  shows "\<exists>e \<in> set (company_mappings st'). canonical_name (snd e) = c"
proof (cases "truthy (find_exact_match st x)")
  case True
  then obtain d where d: "find_exact_match st x = Some d" by (auto simp: truthy_Some)
  with True assms have "c = d" "st' = st" by (simp_all add: normalize_company_name_def)
  with find_exact_match_in [OF d] show ?thesis by blast
next
  case False
  show ?thesis
  proof (cases "truthy (find_fuzzy_match st x)")
    case True
    then obtain d where d: "find_fuzzy_match st x = Some d" "d \<noteq> []"
      by (auto simp: truthy_Some)
    with assms(1) obtain e where e: "e \<in> set (company_mappings st)" "canonical_name (snd e) = d"
      using find_fuzzy_match_in by blast
    let ?m = "(snd e)\<lparr>variations := set_add x (variations (snd e))\<rparr>"
    from add_variation_inv [OF assms(1) e(1), of x] e(2) d
    have "add_variation st d x =
        Inr (st\<lparr>company_mappings := AList.update (fst e) ?m (company_mappings st)\<rparr>)"
      by simp
    with assms True False d
    have cd: "c = d"
      and s: "st' = st\<lparr>company_mappings := AList.update (fst e) ?m (company_mappings st)\<rparr>"
      by (simp_all add: normalize_company_name_def)
    have "(fst e, ?m) \<in> set (AList.update (fst e) ?m (company_mappings st))"
      by (rule update_mem)
    then have "(fst e, ?m) \<in> set (company_mappings st')" by (simp add: s)
    moreover have "canonical_name (snd (fst e, ?m)) = c" using e(2) cd by simp
    ultimately show ?thesis by blast
  next
    case nf: False
    let ?m = "(new_mapping c [])\<lparr>variations := set_add c (set_add x (variations (new_mapping c [])))\<rparr>"
    from assms False nf have c: "c = create_canonical_name x"
      and s: "st' = add_new_company st c x"
      by (auto simp: normalize_company_name_def)
    have "(lower c, ?m) \<in> set (AList.update (lower c) ?m (company_mappings st))"
      by (rule update_mem)
    then have "(lower c, ?m) \<in> set (company_mappings st')"
      by (simp add: s add_new_company_def Let_def)
    moreover have "canonical_name (snd (lower c, ?m)) = c" by (simp add: new_mapping_def)
    ultimately show ?thesis by blast
  qed
qed

lemma find_exact_match_canonical:
  assumes "registry_inv st" "e \<in> set (company_mappings st)"
  shows "find_exact_match st (canonical_name (snd e)) = Some (canonical_name (snd e))"
  using mappings_inv_map_of [of "company_mappings st" e] assms
  by (simp add: find_exact_match_def registry_inv_def)

text \<open>
  Claim C4, as amended. In a reachable state, when \<^verbatim>\<open>normalize_company_name(x)\<close> returns
  the name \<open>c\<close>, and \<open>c\<close> is \<^verbatim>\<open>Unknown\<close> or is neither empty nor, without regard to
  case, one of \<^verbatim>\<open>unknown\<close>, \<^verbatim>\<open>null\<close>, \<^verbatim>\<open>none\<close>, then normalizing \<open>c\<close> in the state
  after the call returns \<open>c\<close> again and changes nothing.
\<close>

theorem normalize_idempotent:
  assumes "reachable st" and "normalize_company_name st x = Inr (c, st')"
    and "c = ''Unknown'' \<or> (c \<noteq> [] \<and> lower c \<notin> {''unknown'', ''null'', ''none''})"
  shows "normalize_company_name st' c = Inr (c, st')"
proof (cases "c = ''Unknown''")
  case True
  have "reserved ''Unknown''" by code_simp
  with True show ?thesis by (simp add: normalize_company_name_def)
next
  case False
  with assms(3) have nr: "\<not> reserved c" by (simp add: reserved_def)
  have inv: "registry_inv st" using assms(1) by (rule reachable_registry_inv)
  have nx: "\<not> reserved x"
  proof
    assume "reserved x"
    with assms(2) have "c = ''Unknown''" by (simp add: normalize_company_name_def)
    with False show False by simp
  qed
  from normalize_company_name_inv [OF inv, of x] assms(2)
  have inv': "registry_inv st'" by auto
  from normalize_company_name_registered [OF inv assms(2) nx]
  obtain e where e: "e \<in> set (company_mappings st')" "canonical_name (snd e) = c" by blast
  from find_exact_match_canonical [OF inv' e(1)] e(2)
  have "find_exact_match st' c = Some c" by simp
  moreover from nr have "c \<noteq> []" by (simp add: reserved_def)
  ultimately show ?thesis
    using nr by (simp add: normalize_company_name_def truthy_def)
qed

theorem normalize_idempotent_witness:
  "normalize_company_name st_fresh ''Acme'' = Inr (''Acme'', st_acme 0.8) \<and>
   normalize_company_name (st_acme 0.8) ''Acme'' = Inr (''Acme'', st_acme 0.8)"
proof -
  have r: "reachable st_fresh" unfolding st_fresh_def by (rule reachable.fresh)
  have n: "normalize_company_name st_fresh ''Acme'' = Inr (''Acme'', st_acme 0.8)"
    unfolding st_fresh_def st_acme_def by code_simp
  have c: "''Acme'' = ''Unknown'' \<or> (''Acme'' \<noteq> [] \<and> lower ''Acme'' \<notin> {''unknown'', ''null'', ''none''})"
    by code_simp
  from normalize_idempotent [OF r n c] n show ?thesis by blast
qed

text \<open>
  Without the condition on \<open>c\<close> the property fails. On the empty registry the name
  \<^verbatim>\<open>" none"\<close> (with a leading blank) is not reserved and is registered under the
  canonical name \<^verbatim>\<open>None\<close>, which a second call turns into \<^verbatim>\<open>Unknown\<close>; the name \<^verbatim>\<open>" "\<close>
  is registered under the empty canonical name, which a second call turns into
  \<^verbatim>\<open>Unknown\<close> as well.
\<close>

definition st_none :: normalizer where
  "st_none = \<lparr>similarity_threshold = 0.8,
     company_mappings =
       [(''none'', \<lparr>canonical_name = ''None'', variations = ['' none'', ''None''],
                    folder_name = ''None''\<rparr>)],
     normalized_to_canonical = [(''none'', ''None'')]\<rparr>"

definition st_blank :: normalizer where
  "st_blank = \<lparr>similarity_threshold = 0.8,
     company_mappings =
       [([], \<lparr>canonical_name = [], variations = ['' '', []], folder_name = ''Unknown''\<rparr>)],
     normalized_to_canonical = [([], [])]\<rparr>"

theorem normalize_idempotent_counterexample:
  "normalize_company_name st_fresh '' none'' = Inr (''None'', st_none) \<and>
   normalize_company_name st_none ''None'' = Inr (''Unknown'', st_none) \<and>
   normalize_company_name st_fresh '' '' = Inr ([], st_blank) \<and>
   normalize_company_name st_blank [] = Inr (''Unknown'', st_blank)"
  unfolding st_fresh_def st_none_def st_blank_def by code_simp

section \<open>An exact match changes nothing\<close>

text \<open>
  Claim C10, as amended. In a state that keeps the invariant, let the raw name \<open>x\<close> be
  neither empty nor, without regard to case, one of \<^verbatim>\<open>unknown\<close>, \<^verbatim>\<open>null\<close>, \<^verbatim>\<open>none\<close>;
  let it equal, without regard to case, the canonical name or a variation of a registered
  mapping; and let every mapping it matches in this way have a non-empty canonical
  name. Then \<^verbatim>\<open>normalize_company_name\<close> returns the canonical name of a mapping that
  \<open>x\<close> matches (of the mapping whose canonical name it equals, when there is one) and
  returns the state as it was: both dictionaries and every set of variations.
\<close>

definition matches_mapping :: "string \<Rightarrow> string \<times> CompanyMapping \<Rightarrow> bool" where
  \<comment> \<open>\<open>x\<close> equals the canonical name or a variation of the mapping, without regard to case\<close>
  "matches_mapping x e \<longleftrightarrow>
     lower x = lower (canonical_name (snd e)) \<or> lower x \<in> set (map lower (variations (snd e)))"

theorem exact_match_frame:
  assumes "registry_inv st"
    and "x \<noteq> []" and "lower x \<notin> {''unknown'', ''null'', ''none''}"
    and "e \<in> set (company_mappings st)" and "matches_mapping x e"
    and "\<forall>e' \<in> set (company_mappings st). matches_mapping x e' \<longrightarrow> canonical_name (snd e') \<noteq> []"
  shows "(\<exists>e' \<in> set (company_mappings st). matches_mapping x e' \<and>
            normalize_company_name st x = Inr (canonical_name (snd e'), st)) \<and>
         (lower x = lower (canonical_name (snd e)) \<longrightarrow>
            normalize_company_name st x = Inr (canonical_name (snd e), st))"
proof -
  have nr: "\<not> reserved x" using assms(2,3) by (simp add: reserved_def)
  have key: "fst e' = lower (canonical_name (snd e'))" if "e' \<in> set (company_mappings st)" for e'
    using assms(1) that by (auto simp: registry_inv_def mappings_inv_def)
  have hit: "normalize_company_name st x = Inr (canonical_name (snd e'), st)"
    if "find_exact_match st x = Some (canonical_name (snd e'))"
      and "e' \<in> set (company_mappings st)" and "matches_mapping x e'" for e'
  proof -
    from that assms(6) have "canonical_name (snd e') \<noteq> []" by blast
    with that(1) nr show ?thesis
      by (simp add: normalize_company_name_def truthy_def)
  qed
  have first: "\<exists>e' \<in> set (company_mappings st). matches_mapping x e' \<and>
            normalize_company_name st x = Inr (canonical_name (snd e'), st)"
  proof (cases "map_of (company_mappings st) (lower x)")
    case (Some m)
    then have m: "(lower x, m) \<in> set (company_mappings st)" by (rule map_of_SomeD)
    with key [of "(lower x, m)"] have "matches_mapping x (lower x, m)"
      by (simp add: matches_mapping_def)
    moreover from Some have "find_exact_match st x = Some (canonical_name (snd (lower x, m)))"
      by (simp add: find_exact_match_def)
    ultimately show ?thesis using hit m by blast
  next
    case None
    have "lower x \<noteq> lower (canonical_name (snd e))"
    proof
      assume "lower x = lower (canonical_name (snd e))"
      with key [OF assms(4)] have "lower x \<in> fst ` set (company_mappings st)"
        using assms(4) by force
      with None show False by (simp add: map_of_eq_None_iff)
    qed
    with assms(5) have "has_variation x e"
      by (simp add: matches_mapping_def has_variation_def)
    with assms(4) obtain e' where
      f: "List.find (has_variation x) (company_mappings st) = Some e'"
      by (metis find_None_iff option.exhaust)
    then have e': "e' \<in> set (company_mappings st)" "has_variation x e'"
      by (auto simp: find_Some_iff)
    then have "matches_mapping x e'" by (simp add: matches_mapping_def has_variation_def)
    moreover from None f have "find_exact_match st x = Some (canonical_name (snd e'))"
      by (simp add: find_exact_match_def)
    ultimately show ?thesis using hit e'(1) by blast
  qed
  have second: "lower x = lower (canonical_name (snd e)) \<longrightarrow>
            normalize_company_name st x = Inr (canonical_name (snd e), st)"
  proof
    assume l: "lower x = lower (canonical_name (snd e))"
    with mappings_inv_map_of [of "company_mappings st" e] assms(1,4)
    have "find_exact_match st x = Some (canonical_name (snd e))"
      by (simp add: find_exact_match_def registry_inv_def)
    then show "normalize_company_name st x = Inr (canonical_name (snd e), st)"
      using assms(4,5) by (rule hit)
  qed
  from first second show ?thesis by blast
qed

theorem exact_match_frame_witness:
  "normalize_company_name (st_acme 0.8) ''ACME'' = Inr (''Acme'', st_acme 0.8)"
proof -
  let ?e = "(''acme'', \<lparr>canonical_name = ''Acme'', variations = [''Acme''], folder_name = ''Acme''\<rparr>)"
  have inv: "registry_inv (st_acme 0.8)"
    using st_acme_reachable by (rule reachable_registry_inv)
  have x: "''ACME'' \<noteq> []" by simp
  have l: "lower ''ACME'' \<notin> {''unknown'', ''null'', ''none''}" by code_simp
  have e: "?e \<in> set (company_mappings (st_acme 0.8))" by (simp add: st_acme_def)
  have m: "matches_mapping ''ACME'' ?e" by code_simp
  have a: "\<forall>e' \<in> set (company_mappings (st_acme 0.8)).
             matches_mapping ''ACME'' e' \<longrightarrow> canonical_name (snd e') \<noteq> []"
    by (simp add: st_acme_def)
  have c: "lower ''ACME'' = lower (canonical_name (snd ?e))" by code_simp
  from exact_match_frame [OF inv x l e m a] c show ?thesis by simp
qed

text \<open>
  The two conditions on the names are needed. In the state \<open>st_none\<close>, reached from the
  empty registry by normalizing \<^verbatim>\<open>" none"\<close>, the raw name \<^verbatim>\<open>none\<close> equals the canonical
  name \<^verbatim>\<open>None\<close> without regard to case, and the call returns \<^verbatim>\<open>Unknown\<close>. In the state
  \<open>st_blank_inc\<close>, reached by normalizing \<^verbatim>\<open>" "\<close> and then \<^verbatim>\<open>Inc\<close>, the raw name \<^verbatim>\<open>" "\<close>
  is a variation of the mapping with the empty canonical name, and the call changes the
  index from normalized to canonical names.
\<close>

definition st_blank_inc :: normalizer where
  "st_blank_inc = \<lparr>similarity_threshold = 0.8,
     company_mappings =
       [([], \<lparr>canonical_name = [], variations = ['' '', []], folder_name = ''Unknown''\<rparr>),
        (''inc'', \<lparr>canonical_name = ''INC'', variations = [''Inc'', ''INC''],
                   folder_name = ''INC''\<rparr>)],
     normalized_to_canonical = [([], ''INC'')]\<rparr>"

theorem exact_match_frame_counterexample:
  "normalize_company_name st_fresh '' none'' = Inr (''None'', st_none) \<and>
   matches_mapping ''none'' (hd (company_mappings st_none)) \<and>
   canonical_name (snd (hd (company_mappings st_none))) = ''None'' \<and>
   normalize_company_name st_none ''none'' = Inr (''Unknown'', st_none) \<and>
   normalize_company_name st_fresh '' '' = Inr ([], st_blank) \<and>
   normalize_company_name st_blank ''Inc'' = Inr (''INC'', st_blank_inc) \<and>
   matches_mapping '' '' (hd (company_mappings st_blank_inc)) \<and>
   normalize_company_name st_blank_inc '' '' =
     Inr ([], st_blank_inc\<lparr>normalized_to_canonical := [([], [])]\<rparr>)"
  unfolding st_fresh_def st_none_def st_blank_def st_blank_inc_def by code_simp

section \<open>Moving files: what a move keeps and what it adds\<close>

subsection \<open>The name search\<close>

lemma unique_target_free: "unique_target names stem suffix target counter \<notin> set names"
proof (induction names stem suffix target counter rule: unique_target.induct)
  case (1 names stem suffix target counter)
  then show ?case
    by (simp add: unique_target.simps [of names stem suffix target counter])
qed

lemma unique_target_numbered:
  "target \<in> set names \<Longrightarrow>
   \<exists>k \<ge> counter. unique_target names stem suffix target counter = numbered stem suffix k \<and>
     (\<forall>j. counter \<le> j \<and> j < k \<longrightarrow> numbered stem suffix j \<in> set names)"
proof (induction names stem suffix target counter rule: unique_target.induct)
  case (1 names stem suffix target counter)
  show ?case
  proof (cases "numbered stem suffix counter \<in> set names")
    case True
    from "1.IH" [OF "1.prems" True] obtain k where k: "Suc counter \<le> k"
      "unique_target names stem suffix (numbered stem suffix counter) (Suc counter) =
         numbered stem suffix k"
      "\<forall>j. Suc counter \<le> j \<and> j < k \<longrightarrow> numbered stem suffix j \<in> set names"
      by blast
    have "\<forall>j. counter \<le> j \<and> j < k \<longrightarrow> numbered stem suffix j \<in> set names"
    proof (intro allI impI)
      fix j assume "counter \<le> j \<and> j < k"
      then have "j = counter \<or> (Suc counter \<le> j \<and> j < k)" by auto
      with True k(3) show "numbered stem suffix j \<in> set names" by blast
    qed
    with k(1,2) "1.prems" show ?thesis
      by (intro exI [of _ k]) (simp add: unique_target.simps [of names stem suffix target counter])
  next
    case False
    then have "unique_target names stem suffix (numbered stem suffix counter) (Suc counter) =
        numbered stem suffix counter"
      by (simp add: unique_target.simps [of names stem suffix "numbered stem suffix counter"])
    with "1.prems" show ?thesis
      by (intro exI [of _ counter])
         (auto simp: unique_target.simps [of names stem suffix target counter])
  qed
qed

lemma free_target_free: "free_target names name \<notin> set names"
  by (simp add: free_target_def unique_target_free)

lemma free_target_numbered:
  assumes "name \<in> set names"
  shows "\<exists>k \<ge> 1. free_target names name = numbered (path_stem name) (path_suffix name) k \<and>
           (\<forall>j. 1 \<le> j \<and> j < k \<longrightarrow>
              numbered (path_stem name) (path_suffix name) j \<in> set names)"
  using unique_target_numbered [OF assms, of 1 "path_stem name" "path_suffix name"] assms
  by (simp add: free_target_def)

subsection \<open>Lookups after a move into a folder\<close>

lemma map_of_append_fresh:
  "k \<notin> fst ` set es \<Longrightarrow> map_of (es @ [(k, v)]) d = (if d = k then Some v else map_of es d)"
  by (induction es) auto

lemma place_is_dir: "place p x n = Inr n' \<Longrightarrow> \<exists>es es'. n = Dir es \<and> n' = Dir es'"
  by (induction p x n rule: place.induct) (auto split: option.splits sum.splits)

lemma place_keeps:
  "place p x n = Inr n' \<Longrightarrow>
   (lookup n q = Some (File a) \<longrightarrow> lookup n' q = Some (File a)) \<and>
   (lookup n q \<noteq> None \<longrightarrow> lookup n' q \<noteq> None)"
proof (induction p x n arbitrary: n' q rule: place.induct)
  case (1 x n)
  then show ?case by simp
next
  case (2 d ds x y)
  then show ?case by simp
next
  case (3 name x es)
  let ?t = "free_target (map fst es) name"
  from 3 have n': "n' = Dir (es @ [(?t, File x)])" by simp
  have fresh: "?t \<notin> fst ` set es" using free_target_free [of "map fst es" name] by simp
  show ?case
  proof (cases q)
    case Nil
    then show ?thesis by (simp add: n')
  next
    case (Cons d' ds')
    show ?thesis
    proof (cases "map_of es d'")
      case None
      then show ?thesis by (simp add: Cons)
    next
      case (Some c)
      then have "d' \<in> fst ` set es" by (metis map_of_eq_None_iff option.distinct(1))
      with fresh have "d' \<noteq> ?t" by blast
      with Some show ?thesis by (simp add: Cons n' map_of_append_fresh [OF fresh])
    qed
  qed
next
  case (4 d e ds x es)
  show ?case
  proof (cases "map_of es d")
    case None
    with "4.prems" obtain c where c: "place (e # ds) x (Dir []) = Inr c"
      and n': "n' = Dir (es @ [(d, c)])"
      by (auto split: sum.splits)
    from None have fresh: "d \<notin> fst ` set es" by (simp add: map_of_eq_None_iff)
    show ?thesis
    proof (cases q)
      case Nil
      then show ?thesis by (simp add: n')
    next
      case (Cons d' ds')
      show ?thesis
      proof (cases "map_of es d'")
        case n: None
        then show ?thesis by (simp add: Cons)
      next
        case (Some c')
        with None have "d' \<noteq> d" by auto
        with Some show ?thesis by (simp add: Cons n' map_of_append_fresh [OF fresh])
      qed
    qed
  next
    case (Some c)
    with "4.prems" obtain c' where c': "place (e # ds) x c = Inr c'"
      and n': "n' = Dir (AList.update d c' es)"
      by (auto split: sum.splits)
    show ?thesis
    proof (cases q)
      case Nil
      then show ?thesis by (simp add: n')
    next
      case (Cons d' ds')
      show ?thesis
      proof (cases "d' = d")
        case True
        with "4.IH"(2) [OF Some c', of ds' ] Some show ?thesis
          by (simp add: Cons n' update_conv')
      next
        case False
        then show ?thesis by (simp add: Cons n' update_conv')
      qed
    qed
  qed
qed

lemma place_collision:
  "place p x n = Inr n' \<Longrightarrow> lookup n p \<noteq> None \<Longrightarrow>
   \<exists>k \<ge> 1.
     lookup n' (butlast p @ [numbered (path_stem (last p)) (path_suffix (last p)) k])
       = Some (File x) \<and>
     (\<forall>j. 1 \<le> j \<and> j < k \<longrightarrow>
        lookup n (butlast p @ [numbered (path_stem (last p)) (path_suffix (last p)) j]) \<noteq> None)"
proof (induction p x n arbitrary: n' rule: place.induct)
  case (1 x n)
  then show ?case by simp
next
  case (2 d ds x y)
  then show ?case by simp
next
  case (3 name x es)
  let ?t = "free_target (map fst es) name"
  from 3 have n': "n' = Dir (es @ [(?t, File x)])" by simp
  have fresh: "?t \<notin> fst ` set es" using free_target_free [of "map fst es" name] by simp
  from "3.prems"(2) have "map_of es name \<noteq> None"
    by (auto split: option.splits)
  then have "name \<in> set (map fst es)"
    by (simp add: map_of_eq_None_iff)
  from free_target_numbered [OF this] obtain k where k: "1 \<le> k"
    "?t = numbered (path_stem name) (path_suffix name) k"
    "\<forall>j. 1 \<le> j \<and> j < k \<longrightarrow> numbered (path_stem name) (path_suffix name) j \<in> set (map fst es)"
    by blast
  have "lookup n' [?t] = Some (File x)"
    by (simp add: n' map_of_append_fresh [OF fresh] del: map_of_append)
  moreover have "\<forall>j. 1 \<le> j \<and> j < k \<longrightarrow>
      lookup (Dir es) [numbered (path_stem name) (path_suffix name) j] \<noteq> None"
  proof (intro allI impI)
    fix j assume "1 \<le> j \<and> j < k"
    with k(3) have "numbered (path_stem name) (path_suffix name) j \<in> fst ` set es" by simp
    then have "map_of es (numbered (path_stem name) (path_suffix name) j) \<noteq> None"
      by (simp add: map_of_eq_None_iff)
    then show "lookup (Dir es) [numbered (path_stem name) (path_suffix name) j] \<noteq> None"
      by (auto split: option.splits)
  qed
  ultimately show ?case using k(1,2) by (intro exI [of _ k]) simp
next
  case (4 d e ds x es)
  from "4.prems"(2) obtain c where c: "map_of es d = Some c" "lookup c (e # ds) \<noteq> None"
    by (auto split: option.splits)
  with "4.prems"(1) obtain c' where c': "place (e # ds) x c = Inr c'"
    and n': "n' = Dir (AList.update d c' es)"
    by (auto split: sum.splits)
  from "4.IH"(2) [OF c(1) c' c(2)] obtain k where k: "1 \<le> k"
    "lookup c' (butlast (e # ds) @ [numbered (path_stem (last (e # ds)))
        (path_suffix (last (e # ds))) k]) = Some (File x)"
    "\<forall>j. 1 \<le> j \<and> j < k \<longrightarrow>
       lookup c (butlast (e # ds) @ [numbered (path_stem (last (e # ds)))
         (path_suffix (last (e # ds))) j]) \<noteq> None"
    by blast
  show ?case
    using k c(1) by (intro exI [of _ k]) (simp add: n' update_conv')
qed

subsection \<open>The files of a walk\<close>

lemma rglob_files_paths:
  fixes n :: "'a node" and es es' :: "(string \<times> 'a node) list"
  shows "(\<forall>f \<in> set (rglob_files n). fst f \<noteq> [])"
    and "(\<forall>f \<in> set (files_here es). fst f \<noteq> [])"
    and "(\<forall>f \<in> set (files_below es'). fst f \<noteq> [])"
  by (induction n and es and es' rule: rglob_files_files_here_files_below.induct)
     (auto split: node.splits)

lemma rglob_files_nonempty: "\<forall>f \<in> set (rglob_files n). fst f \<noteq> []"
  by (rule rglob_files_paths)

subsection \<open>The loop seen from the two folders\<close>

text \<open>
  When the keep folder and the merge folder are different entries of the output
  directory, the loop of \<^verbatim>\<open>_merge_company_folders\<close> places the files of the merge folder,
  one after the other, into the keep folder, and a successful call leaves the output
  directory with the keep folder so filled and without the merge folder.
\<close>

fun place_all :: "(string list \<times> 'a) list \<Rightarrow> 'a node \<Rightarrow> py_error + 'a node" where
  "place_all [] K = Inr K"
| "place_all (f # fs) K =
     (case place (fst f) (snd f) K of Inl err \<Rightarrow> Inl err | Inr K1 \<Rightarrow> place_all fs K1)"

lemma move_file_project:
  assumes "kn \<noteq> mn" "map_of es kn = Some K" "fst f \<noteq> []"
    and "move_file kn mn f (Dir es) = Inr out1"
  shows "\<exists>K1 es1. out1 = Dir es1 \<and> place (fst f) (snd f) K = Inr K1 \<and>
           map_of es1 kn = Some K1 \<and>
           AList.delete mn es1 = AList.delete mn (AList.update kn K1 es)"
proof -
  from assms(3) obtain e ds where p: "fst f = e # ds" by (cases "fst f") auto
  from assms(4) obtain out0 where o: "place (kn # e # ds) (snd f) (Dir es) = Inr out0"
    and r: "out1 = remove_path (mn # e # ds) out0"
    by (auto simp: move_file_def p split: sum.splits)
  from o assms(2) obtain K1 where K1: "place (e # ds) (snd f) K = Inr K1"
    and out0: "out0 = Dir (AList.update kn K1 es)"
    by (auto split: sum.splits)
  let ?es0 = "AList.update kn K1 es"
  have k0: "map_of ?es0 kn = Some K1" by (simp add: update_conv')
  show ?thesis
  proof (cases "map_of ?es0 mn")
    case None
    with r out0 have "out1 = Dir ?es0" by simp
    with K1 k0 show ?thesis by (simp add: p)
  next
    case (Some c)
    with r out0 have "out1 = Dir (AList.update mn (remove_path (e # ds) c) ?es0)" by simp
    moreover have "map_of (AList.update mn (remove_path (e # ds) c) ?es0) kn = Some K1"
      using assms(1) k0 by (simp add: update_conv')
    moreover have "AList.delete mn (AList.update mn (remove_path (e # ds) c) ?es0) =
        AList.delete mn ?es0"
      by (rule delete_update_same)
    ultimately show ?thesis using K1 by (simp add: p)
  qed
qed

lemma move_all_project:
  assumes "kn \<noteq> mn"
  shows "\<forall>f \<in> set fs. fst f \<noteq> [] \<Longrightarrow> map_of es kn = Some K \<Longrightarrow>
         move_all kn mn fs (Dir es) = (True, out') \<Longrightarrow>
         \<exists>K' es'. out' = Dir es' \<and> place_all fs K = Inr K' \<and> map_of es' kn = Some K' \<and>
           AList.delete mn es' = AList.delete mn (AList.update kn K' es)"
proof (induction fs arbitrary: es K)
  case Nil
  then have "AList.update kn K es = es" by (simp add: update_triv)
  with Nil show ?case by auto
next
  case (Cons f fs)
  from Cons.prems(3) obtain out1 where m: "move_file kn mn f (Dir es) = Inr out1"
    and a: "move_all kn mn fs out1 = (True, out')"
    by (auto split: sum.splits)
  from move_file_project [OF assms Cons.prems(2) _ m] Cons.prems(1)
  obtain K1 es1 where s: "out1 = Dir es1" "place (fst f) (snd f) K = Inr K1"
    "map_of es1 kn = Some K1"
    "AList.delete mn es1 = AList.delete mn (AList.update kn K1 es)"
    by auto
  from Cons.IH [OF _ s(3) a [unfolded s(1)]] Cons.prems(1)
  obtain K' es' where t: "out' = Dir es'" "place_all fs K1 = Inr K'" "map_of es' kn = Some K'"
    "AList.delete mn es' = AList.delete mn (AList.update kn K' es1)"
    by auto
  have "AList.delete mn (AList.update kn K' es1) = AList.update kn K' (AList.delete mn es1)"
    using assms by (simp add: delete_update)
  also have "\<dots> = AList.update kn K' (AList.update kn K1 (AList.delete mn es))"
    using assms by (simp add: s(4) delete_update)
  also have "\<dots> = AList.update kn K' (AList.delete mn es)" by simp
  also have "\<dots> = AList.delete mn (AList.update kn K' es)"
    using assms by (simp add: delete_update)
  finally have "AList.delete mn es' = AList.delete mn (AList.update kn K' es)"
    using t(4) by simp
  with t s(2) show ?case by simp
qed

lemma merge_plan_cases:
  assumes "merge_plan out c1 c2 = Some (kn, mn, M)"
  shows "\<exists>es K. out = Dir es \<and> map_of es kn = Some K \<and> map_of es mn = Some M \<and>
           ((kn = folder_name c1 \<and> mn = folder_name c2) \<or>
            (kn = folder_name c2 \<and> mn = folder_name c1))"
proof (cases out)
  case (File x)
  with assms show ?thesis by (simp add: merge_plan_def)
next
  case (Dir es)
  with assms show ?thesis
    by (auto simp: merge_plan_def Let_def split: option.splits if_splits)
qed

lemma merge_success:
  assumes "merge_company_folders out c1 c2 = (True, out'')"
    and "folder_name c1 \<noteq> folder_name c2"
  shows "\<exists>kn mn M es K K'. merge_plan out c1 c2 = Some (kn, mn, M) \<and> out = Dir es \<and>
           kn \<noteq> mn \<and> map_of es kn = Some K \<and> map_of es mn = Some M \<and>
           place_all (rglob_files M) K = Inr K' \<and>
           out'' = Dir (AList.update kn K' (AList.delete mn es))"
proof -
  from assms(1) obtain kn mn M out' where
    plan: "merge_plan out c1 c2 = Some (kn, mn, M)"
    and mv: "move_all kn mn (rglob_files M) out = (True, out')"
    and rm: "rmtree mn out' = Inr out''"
    by (auto simp: merge_company_folders_def split: option.splits prod.splits bool.splits
        sum.splits)
  from merge_plan_cases [OF plan] assms(2) obtain es K where
    o: "out = Dir es" "map_of es kn = Some K" "map_of es mn = Some M" "kn \<noteq> mn"
    by auto
  have ne: "\<forall>f \<in> set (rglob_files M). fst f \<noteq> []"
    by (rule rglob_files_nonempty)
  from move_all_project [OF o(4) ne o(2) mv [unfolded o(1)]]
  obtain K' es' where t: "out' = Dir es'" "place_all (rglob_files M) K = Inr K'"
    "AList.delete mn es' = AList.delete mn (AList.update kn K' es)"
    by auto
  from rm t(1) have "out'' = Dir (AList.delete mn es')"
    by (auto simp: rmtree_def split: option.splits node.splits)
  with t(3) o(4) have "out'' = Dir (AList.update kn K' (AList.delete mn es))"
    by (simp add: delete_update)
  with plan o t(2) show ?thesis by blast
qed

lemma lookup_in_rglob_files:
  "lookup n p = Some (File b) \<Longrightarrow> p \<noteq> [] \<Longrightarrow> (p, b) \<in> set (rglob_files n)"
proof (induction p arbitrary: n)
  case Nil
  then show ?case by simp
next
  case (Cons d ds)
  have here: "(d, File b) \<in> set es \<Longrightarrow> ([d], b) \<in> set (files_here es)"
    for es :: "(string \<times> 'a node) list"
    by (induction es) (auto split: node.splits)
  have below: "(d, Dir xs) \<in> set es \<Longrightarrow> f \<in> set (rglob_files (Dir xs)) \<Longrightarrow>
      (d # fst f, snd f) \<in> set (files_below es)"
    for es xs :: "(string \<times> 'a node) list" and f
    by (induction es) (auto split: node.splits)
  from Cons.prems(1) obtain es c where n: "n = Dir es" and c: "map_of es d = Some c"
    and l: "lookup c ds = Some (File b)"
    by (cases n) (auto split: option.splits)
  from c have m: "(d, c) \<in> set es" by (rule map_of_SomeD)
  show ?case
  proof (cases ds)
    case Nil
    with l have "c = File b" by simp
    with m have "([d], b) \<in> set (files_here es)" using here by simp
    with Nil n show ?thesis by simp
  next
    case (Cons e ds')
    with l obtain xs where xs: "c = Dir xs" by (cases c) auto
    from Cons.IH [OF l] Cons have "(ds, b) \<in> set (rglob_files c)" by simp
    with below [of xs es "(ds, b)"] m xs have "(d # ds, b) \<in> set (files_below es)" by simp
    with n show ?thesis by simp
  qed
qed

lemma place_all_keeps:
  "place_all fs K = Inr K' \<Longrightarrow>
   (lookup K q = Some (File a) \<longrightarrow> lookup K' q = Some (File a)) \<and>
   (lookup K q \<noteq> None \<longrightarrow> lookup K' q \<noteq> None)"
proof (induction fs arbitrary: K)
  case Nil
  then show ?case by simp
next
  case (Cons f fs)
  then obtain K1 where K1: "place (fst f) (snd f) K = Inr K1" "place_all fs K1 = Inr K'"
    by (auto split: sum.splits)
  from place_keeps [OF K1(1), of q a] Cons.IH [OF K1(2)] show ?case by blast
qed

lemma place_all_collision:
  "place_all fs K = Inr K' \<Longrightarrow> (p, b) \<in> set fs \<Longrightarrow> lookup K p \<noteq> None \<Longrightarrow>
   \<exists>k \<ge> 1.
     lookup K' (butlast p @ [numbered (path_stem (last p)) (path_suffix (last p)) k])
       = Some (File b) \<and>
     (\<forall>j. 1 \<le> j \<and> j < k \<longrightarrow>
        lookup K' (butlast p @ [numbered (path_stem (last p)) (path_suffix (last p)) j])
          \<noteq> None)"
proof (induction fs arbitrary: K)
  case Nil
  then show ?case by simp
next
  case (Cons f fs)
  then obtain K1 where K1: "place (fst f) (snd f) K = Inr K1" "place_all fs K1 = Inr K'"
    by (auto split: sum.splits)
  let ?nm = "numbered (path_stem (last p)) (path_suffix (last p))"
  show ?case
  proof (cases "f = (p, b)")
    case True
    with K1(1) have pl: "place p b K = Inr K1" by simp
    from place_collision [OF pl Cons.prems(3)] obtain k where k: "1 \<le> k"
      "lookup K1 (butlast p @ [?nm k]) = Some (File b)"
      "\<forall>j. 1 \<le> j \<and> j < k \<longrightarrow> lookup K (butlast p @ [?nm j]) \<noteq> None"
      by blast
    have "lookup K' (butlast p @ [?nm k]) = Some (File b)"
      using place_all_keeps [OF K1(2)] k(2) by blast
    moreover have "\<forall>j. 1 \<le> j \<and> j < k \<longrightarrow> lookup K' (butlast p @ [?nm j]) \<noteq> None"
      using place_keeps [OF pl] place_all_keeps [OF K1(2)] k(3) by blast
    ultimately show ?thesis using k(1) by blast
  next
    case False
    with Cons.prems(2) have "(p, b) \<in> set fs" by auto
    moreover have "lookup K1 p \<noteq> None"
      using place_keeps [OF K1(1)] Cons.prems(3) by blast
    ultimately show ?thesis using Cons.IH [OF K1(2)] by blast
  qed
qed

lemma path_stem_suffix: "path_stem name @ path_suffix name = name"
  by (simp add: path_stem_def path_suffix_def split: option.splits)

section \<open>Which pairs are merged, and which folder is kept\<close>



definition c_ab :: CompanyMapping where
  "c_ab = \<lparr>canonical_name = ''Ab'', variations = [''Ab''], folder_name = ''Ab''\<rparr>"

definition c_ab_inc :: CompanyMapping where
  "c_ab_inc = \<lparr>canonical_name = ''Ab Inc'', variations = [''Ab Inc'', ''Ab_Inc''],
                folder_name = ''Ab_Inc''\<rparr>"

definition out_ab :: "nat node" where
  "out_ab = Dir [(''Ab'', Dir [(''x.pdf'', File 1)]),
                 (''Ab_Inc'', Dir [(''x.pdf'', File 2), (''y.pdf'', File 3)])]"

definition out_ab_merged :: "nat node" where
  "out_ab_merged =
     Dir [(''Ab_Inc'', Dir [(''x.pdf'', File 2), (''y.pdf'', File 3), (''x_1.pdf'', File 1)])]"

lemma merge_ab: "merge_company_folders out_ab c_ab c_ab_inc = (True, out_ab_merged)"
  unfolding out_ab_def c_ab_def c_ab_inc_def out_ab_merged_def by code_simp

lemma merge_plan_ab:
  "merge_plan out_ab c_ab c_ab_inc = Some (''Ab_Inc'', ''Ab'', Dir [(''x.pdf'', File 1)])"
  unfolding out_ab_def c_ab_def c_ab_inc_def by code_simp

lemma folder_names_ab: "folder_name c_ab \<noteq> folder_name c_ab_inc"
  by (simp add: c_ab_def c_ab_inc_def)



section \<open>Files at the same relative path in both folders\<close>

text \<open>
  Claim C7. Let a merge of two different folders succeed, let \<open>kn\<close> be the folder that is
  kept and \<open>mn\<close> the folder that is merged into it, and let both hold a file at the
  relative path \<open>p\<close>. Afterwards the file of the kept folder is still at \<open>p\<close>, and the
  file of the merged folder is in the same directory of the kept folder under the name
  \<^verbatim>\<open>stem_k.ext\<close>, where \<^verbatim>\<open>stem\<close> and \<^verbatim>\<open>.ext\<close> are the stem and the suffix of the file
  name as \<^verbatim>\<open>pathlib\<close> splits it (together they are the name), and \<open>k \<ge> 1\<close> is such that
  the names numbered \<open>1\<close> to \<open>k - 1\<close> are all taken.
\<close>

theorem merge_conflict_resolution:
  assumes "merge_company_folders out c1 c2 = (True, out')"
    and "folder_name c1 \<noteq> folder_name c2"
    and "merge_plan out c1 c2 = Some (kn, mn, M)"
    and "p \<noteq> []"
    and "lookup out (kn # p) = Some (File a)" and "lookup out (mn # p) = Some (File b)"
  shows "lookup out' (kn # p) = Some (File a) \<and>
         path_stem (last p) @ path_suffix (last p) = last p \<and>
         (\<exists>k \<ge> 1.
            lookup out' (kn # butlast p @
                [numbered (path_stem (last p)) (path_suffix (last p)) k]) = Some (File b) \<and>
            (\<forall>j. 1 \<le> j \<and> j < k \<longrightarrow>
               lookup out' (kn # butlast p @
                 [numbered (path_stem (last p)) (path_suffix (last p)) j]) \<noteq> None))"
proof -
  from merge_success [OF assms(1,2)] assms(3) obtain es K K' where
    s: "out = Dir es" "map_of es kn = Some K" "map_of es mn = Some M"
    "place_all (rglob_files M) K = Inr K'"
    "out' = Dir (AList.update kn K' (AList.delete mn es))"
    by auto
  have l: "lookup out' (kn # q) = lookup K' q" for q
    by (simp add: s(5) update_conv')
  from assms(5) s(1,2) have a: "lookup K p = Some (File a)" by simp
  from assms(6) s(1,3) have "lookup M p = Some (File b)" by simp
  then have b: "(p, b) \<in> set (rglob_files M)"
    using assms(4) by (rule lookup_in_rglob_files)
  from a have e: "lookup K p \<noteq> None" by simp
  have "lookup K' p = Some (File a)"
    using place_all_keeps [OF s(4)] a by blast
  moreover note place_all_collision [OF s(4) b e] path_stem_suffix [of "last p"]
  ultimately show ?thesis by (simp add: l)
qed

theorem merge_conflict_resolution_witness:
  "merge_company_folders out_ab c_ab c_ab_inc = (True, out_ab_merged) \<and>
   lookup out_ab [''Ab_Inc'', ''x.pdf''] = Some (File 2) \<and>
   lookup out_ab [''Ab'', ''x.pdf''] = Some (File 1) \<and>
   lookup out_ab_merged [''Ab_Inc'', ''x.pdf''] = Some (File 2) \<and>
   lookup out_ab_merged [''Ab_Inc'', ''x_1.pdf''] = Some (File 1) \<and>
   numbered (path_stem ''x.pdf'') (path_suffix ''x.pdf'') 1 = ''x_1.pdf'' \<and>
   (\<exists>k \<ge> 1.
      lookup out_ab_merged (''Ab_Inc'' # butlast [''x.pdf''] @
          [numbered (path_stem (last [''x.pdf''])) (path_suffix (last [''x.pdf''])) k])
        = Some (File 1))"
proof -
  have a: "lookup out_ab [''Ab_Inc'', ''x.pdf''] = Some (File 2)"
    and b: "lookup out_ab [''Ab'', ''x.pdf''] = Some (File 1)"
    unfolding out_ab_def by code_simp+
  have c: "lookup out_ab_merged [''Ab_Inc'', ''x_1.pdf''] = Some (File 1)"
    unfolding out_ab_merged_def by code_simp
  have n: "numbered (path_stem ''x.pdf'') (path_suffix ''x.pdf'') 1 = ''x_1.pdf''"
    by code_simp
  have p: "[''x.pdf''] \<noteq> []" by simp
  from merge_conflict_resolution [OF merge_ab folder_names_ab merge_plan_ab p a b]
  have "lookup out_ab_merged [''Ab_Inc'', ''x.pdf''] = Some (File 2)"
    and "\<exists>k \<ge> 1.
      lookup out_ab_merged (''Ab_Inc'' # butlast [''x.pdf''] @
          [numbered (path_stem (last [''x.pdf''])) (path_suffix (last [''x.pdf''])) k])
        = Some (File 1)"
    by blast+
  with merge_ab a b c n show ?thesis by blast
qed

section \<open>Counting files\<close>

subsection \<open>Renaming and the pattern \<^verbatim>\<open>*.pdf\<close>\<close>

lemma is_pdf_dot_ext:
  assumes "CHR ''.'' \<notin> set e"
  shows "is_pdf (s @ CHR ''.'' # e) \<longleftrightarrow> e = ''pdf''"
proof -
  define r where "r = rev e"
  have nd: "CHR ''.'' \<notin> set r" using assms by (simp add: r_def)
  have "take 4 (r @ CHR ''.'' # rev s) = ''fdp.'' \<longleftrightarrow> r = ''fdp''"
  proof (cases r)
    case Nil
    then show ?thesis by simp
  next
    case r1: (Cons a r1)
    show ?thesis
    proof (cases r1)
      case Nil
      with r1 show ?thesis by simp
    next
      case r2: (Cons b r2)
      show ?thesis
      proof (cases r2)
        case Nil
        with r1 r2 show ?thesis by simp
      next
        case r3: (Cons c r3)
        show ?thesis
        proof (cases r3)
          case Nil
          with r1 r2 r3 show ?thesis by simp
        next
          case (Cons d r4)
          with r1 r2 r3 nd show ?thesis by auto
        qed
      qed
    qed
  qed
  moreover have "e = ''pdf'' \<longleftrightarrow> r = ''fdp''"
  proof
    assume "e = ''pdf''"
    then show "r = ''fdp''" by (simp add: r_def)
  next
    assume "r = ''fdp''"
    then have "rev (rev e) = rev ''fdp''" by (simp only: r_def)
    then show "e = ''pdf''" by simp
  qed
  moreover have "is_pdf (s @ CHR ''.'' # e) \<longleftrightarrow> take 4 (r @ CHR ''.'' # rev s) = ''fdp.''"
    by (simp add: is_pdf_def r_def)
  ultimately show ?thesis by blast
qed

lemma path_suffix_shape:
  assumes "path_suffix name \<noteq> []"
  shows "\<exists>ext. path_suffix name = CHR ''.'' # ext \<and> CHR ''.'' \<notin> set ext"
proof -
  define tw where "tw = takeWhile (\<lambda>c. c \<noteq> CHR ''.'') (rev name)"
  from assms have dot: "CHR ''.'' \<in> set name"
    by (auto simp: path_suffix_def last_dot_def split: if_splits)
  then have "dropWhile (\<lambda>c. c \<noteq> CHR ''.'') (rev name) \<noteq> []"
    by (auto simp: dropWhile_eq_Nil_conv)
  then obtain c rest where dw: "dropWhile (\<lambda>c. c \<noteq> CHR ''.'') (rev name) = c # rest"
    by (cases "dropWhile (\<lambda>c. c \<noteq> CHR ''.'') (rev name)") auto
  with hd_dropWhile [of "\<lambda>c. c \<noteq> CHR ''.''" "rev name"] have "c = CHR ''.''"
    by simp
  with dw takeWhile_dropWhile_id [of "\<lambda>c. c \<noteq> CHR ''.''" "rev name"]
  have "rev name = tw @ CHR ''.'' # rest"
    by (simp add: tw_def)
  then have "rev (rev name) = rev (tw @ CHR ''.'' # rest)" by (rule arg_cong)
  then have name: "name = rev rest @ CHR ''.'' # rev tw" by simp
  then have "length name = length rest + 1 + length tw" by simp
  then have len: "length name - 1 - length tw = length rest" by simp
  from dot have "last_dot name = Some (length name - 1 - length tw)"
    by (simp add: last_dot_def tw_def)
  with len have "last_dot name = Some (length rest)" by simp
  with assms have "path_suffix name = drop (length rest) name"
    by (auto simp: path_suffix_def split: if_splits)
  also have "\<dots> = CHR ''.'' # rev tw" by (subst name) simp
  finally have "path_suffix name = CHR ''.'' # rev tw" .
  moreover have "CHR ''.'' \<notin> set (rev tw)"
    unfolding tw_def by (auto dest: set_takeWhileD)
  ultimately show ?thesis by blast
qed

lemma is_pdf_no_suffix:
  assumes "path_suffix name = []" "name \<noteq> ''.pdf''"
  shows "\<not> is_pdf name"
proof
  assume "is_pdf name"
  then have t: "take 4 (rev name) = ''fdp.''" by (simp add: is_pdf_def)
  with append_take_drop_id [of 4 "rev name"]
  have "rev name = ''fdp.'' @ drop 4 (rev name)" by simp
  then obtain rest where r: "rev name = ''fdp.'' @ rest" by blast
  then have "rev (rev name) = rev (''fdp.'' @ rest)" by (rule arg_cong)
  then have name: "name = rev rest @ ''.pdf''" by simp
  with assms(2) have ne: "rest \<noteq> []" by auto
  have tw: "takeWhile (\<lambda>c. c \<noteq> CHR ''.'') (rev name) = ''fdp''" by (simp add: r)
  have "CHR ''.'' \<in> set name" by (simp add: name)
  then have "last_dot name = Some (length rest)"
    by (simp add: last_dot_def tw) (simp add: name)
  with ne have "path_suffix name = drop (length rest) name"
    by (simp add: path_suffix_def) (simp add: name)
  also have "\<dots> = ''.pdf''" by (simp add: name)
  finally show False using assms(1) by simp
qed

lemma last_string_of_nat: "\<exists>m < (10::nat). last (string_of_nat k) = char_of (48 + m)"
proof (cases "k < 10")
  case True
  then show ?thesis by (subst string_of_nat.simps) auto
next
  case False
  have "k mod 10 < 10" by simp
  moreover from False have "last (string_of_nat k) = char_of (48 + k mod 10)"
    by (subst string_of_nat.simps) simp
  ultimately show ?thesis by blast
qed

lemma is_pdf_digit_end: "\<not> is_pdf (s @ ''_'' @ string_of_nat k)"
proof
  assume "is_pdf (s @ ''_'' @ string_of_nat k)"
  then have t: "take 4 (rev (string_of_nat k) @ ''_'' @ rev s) = ''fdp.''"
    by (simp add: is_pdf_def)
  have n: "string_of_nat k \<noteq> []" using string_of_nat_length [of k] by auto
  then obtain c cs where c: "rev (string_of_nat k) = c # cs"
    by (cases "rev (string_of_nat k)") auto
  with t have "c = CHR ''f''" by simp
  moreover from c n have "last (string_of_nat k) = c"
    by (metis hd_rev list.sel(1))
  ultimately have "last (string_of_nat k) = CHR ''f''" by simp
  with last_string_of_nat [of k] obtain m :: nat where "m < 10" "char_of (48 + m) = CHR ''f''"
    by metis
  then have "(48 + m) mod 256 = (102 :: nat)"
    by (simp add: char_of_eq_iff take_bit_eq_mod)
  with \<open>m < 10\<close> show False by simp
qed

lemma is_pdf_numbered:
  assumes "name \<noteq> ''.pdf''"
  shows "is_pdf (numbered (path_stem name) (path_suffix name) k) = is_pdf name"
proof (cases "path_suffix name = []")
  case True
  then have "path_stem name = name" using path_stem_suffix [of name] by simp
  with True is_pdf_digit_end [of name k] is_pdf_no_suffix [OF True assms] show ?thesis
    by (simp add: numbered_def)
next
  case False
  from path_suffix_shape [OF False] obtain ext where
    e: "path_suffix name = CHR ''.'' # ext" "CHR ''.'' \<notin> set ext"
    by blast
  have n: "path_stem name @ CHR ''.'' # ext = name"
    using path_stem_suffix [of name] e(1) by simp
  have "is_pdf ((path_stem name @ ''_'' @ string_of_nat k) @ CHR ''.'' # ext) \<longleftrightarrow> ext = ''pdf''"
    using e(2) by (rule is_pdf_dot_ext)
  then have "is_pdf (numbered (path_stem name) (path_suffix name) k) \<longleftrightarrow> ext = ''pdf''"
    by (simp add: numbered_def e(1))
  moreover have "is_pdf (path_stem name @ CHR ''.'' # ext) \<longleftrightarrow> ext = ''pdf''"
    using e(2) by (rule is_pdf_dot_ext)
  then have "is_pdf name \<longleftrightarrow> ext = ''pdf''" by (simp only: n)
  ultimately show ?thesis by blast
qed

lemma is_pdf_free_target:
  assumes "name \<noteq> ''.pdf''"
  shows "is_pdf (free_target names name) = is_pdf name"
proof (cases "name \<in> set names")
  case True
  from free_target_numbered [OF True] obtain k where
    "free_target names name = numbered (path_stem name) (path_suffix name) k"
    by blast
  with is_pdf_numbered [OF assms, of k] show ?thesis by simp
next
  case False
  then show ?thesis by (simp add: free_target_def)
qed

subsection \<open>The number of files below a directory\<close>

text \<open>
  \<open>file_count\<close> is the number of files in a tree, \<open>pdf_files\<close> the number of files whose
  name matches \<^verbatim>\<open>*.pdf\<close>. The count \<open>rglob_pdf\<close> of the code also counts directories
  with such a name; where there is none, the two counts agree.
\<close>

fun file_count :: "'a node \<Rightarrow> nat"
  and file_count_entries :: "(string \<times> 'a node) list \<Rightarrow> nat" where
  "file_count (File x) = 1"
| "file_count (Dir es) = file_count_entries es"
| "file_count_entries [] = 0"
| "file_count_entries (e # es) = file_count (snd e) + file_count_entries es"

fun pdf_files :: "'a node \<Rightarrow> nat"
  and pdf_files_entries :: "(string \<times> 'a node) list \<Rightarrow> nat" where
  "pdf_files (File x) = 0"
| "pdf_files (Dir es) = pdf_files_entries es"
| "pdf_files_entries [] = 0"
| "pdf_files_entries (e # es) =
     (case snd e of
        File x \<Rightarrow> if is_pdf (fst e) then 1 else 0
      | Dir ds \<Rightarrow> pdf_files (Dir ds)) + pdf_files_entries es"

fun no_pdf_dirs :: "'a node \<Rightarrow> bool"
  and no_pdf_dirs_entries :: "(string \<times> 'a node) list \<Rightarrow> bool" where
  "no_pdf_dirs (File x) = True"
| "no_pdf_dirs (Dir es) = no_pdf_dirs_entries es"
| "no_pdf_dirs_entries [] = True"
| "no_pdf_dirs_entries (e # es) =
     ((case snd e of File x \<Rightarrow> True | Dir ds \<Rightarrow> \<not> is_pdf (fst e) \<and> no_pdf_dirs (Dir ds)) \<and>
      no_pdf_dirs_entries es)"

definition pdf_entry :: "string \<times> 'a node \<Rightarrow> nat" where
  "pdf_entry e =
     (case snd e of File x \<Rightarrow> if is_pdf (fst e) then 1 else 0 | Dir ds \<Rightarrow> pdf_files (Dir ds))"

definition distinct_names :: "'a node \<Rightarrow> bool" where
  \<comment> \<open>no two entries of the directory have the same name\<close>
  "distinct_names out \<longleftrightarrow> (case out of File x \<Rightarrow> True | Dir es \<Rightarrow> distinct (map fst es))"

lemma rglob_pdf_files:
  fixes n :: "'a node" and es :: "(string \<times> 'a node) list"
  shows "no_pdf_dirs n \<Longrightarrow> rglob_pdf n = pdf_files n"
    and "no_pdf_dirs_entries es \<Longrightarrow> rglob_pdf_entries es = pdf_files_entries es"
  by (induction n and es rule: rglob_pdf_rglob_pdf_entries.induct)
     (auto split: node.splits)

lemma file_count_entries_sum:
  "file_count_entries es = sum_list (map (\<lambda>e. file_count (snd e)) es)"
  by (induction es) simp_all

lemma pdf_files_entries_sum: "pdf_files_entries es = sum_list (map pdf_entry es)"
  by (induction es) (simp_all add: pdf_entry_def)

lemma sum_list_update:
  fixes w :: "string \<times> 'a node \<Rightarrow> nat"
  shows "map_of es d = Some c \<Longrightarrow>
    sum_list (map w (AList.update d c' es)) + w (d, c) = sum_list (map w es) + w (d, c')"
  by (induction es) (auto split: if_splits)

lemma sum_list_delete:
  fixes w :: "string \<times> 'a node \<Rightarrow> nat"
  shows "distinct (map fst es) \<Longrightarrow> map_of es d = Some c \<Longrightarrow>
    sum_list (map w (AList.delete d es)) + w (d, c) = sum_list (map w es)"
proof (induction es)
  case Nil
  then show ?case by simp
next
  case (Cons e es)
  show ?case
  proof (cases "fst e = d")
    case True
    with Cons.prems have "d \<notin> fst ` set es" "e = (d, c)" by (auto simp: prod_eq_iff)
    then show ?thesis by (simp add: delete_id)
  next
    case False
    with Cons show ?thesis by (auto simp: AList.delete_eq)
  qed
qed

lemma place_file_count: "place p x n = Inr n' \<Longrightarrow> file_count n' = Suc (file_count n)"
proof (induction p x n arbitrary: n' rule: place.induct)
  case (1 x n)
  then show ?case by simp
next
  case (2 d ds x y)
  then show ?case by simp
next
  case (3 name x es)
  then show ?case by (auto simp: file_count_entries_sum)
next
  case (4 d e ds x es)
  show ?case
  proof (cases "map_of es d")
    case None
    with "4.prems" obtain c where c: "place (e # ds) x (Dir []) = Inr c"
      and n': "n' = Dir (es @ [(d, c)])"
      by (auto split: sum.splits)
    from "4.IH"(1) [OF None c] show ?thesis
      by (simp add: n' file_count_entries_sum)
  next
    case (Some c)
    with "4.prems" obtain c' where c': "place (e # ds) x c = Inr c'"
      and n': "n' = Dir (AList.update d c' es)"
      by (auto split: sum.splits)
    from "4.IH"(2) [OF Some c'] sum_list_update [OF Some, of "\<lambda>e. file_count (snd e)" c']
    show ?thesis
      by (simp add: n' file_count_entries_sum)
  qed
qed

lemma place_pdf_files:
  "place p x n = Inr n' \<Longrightarrow> last p \<noteq> ''.pdf'' \<Longrightarrow>
   pdf_files n' = pdf_files n + (if is_pdf (last p) then 1 else 0)"
proof (induction p x n arbitrary: n' rule: place.induct)
  case (1 x n)
  then show ?case by simp
next
  case (2 d ds x y)
  then show ?case by simp
next
  case (3 name x es)
  then have "is_pdf (free_target (map fst es) name) = is_pdf name"
    by (simp add: is_pdf_free_target)
  with 3 show ?case by (auto simp: pdf_files_entries_sum pdf_entry_def)
next
  case (4 d e ds x es)
  from "4.prems"(2) have l: "last (e # ds) \<noteq> ''.pdf''" by simp
  show ?case
  proof (cases "map_of es d")
    case None
    with "4.prems" obtain c where c: "place (e # ds) x (Dir []) = Inr c"
      and n': "n' = Dir (es @ [(d, c)])"
      by (auto split: sum.splits)
    from place_is_dir [OF c] obtain cs where cs: "c = Dir cs" by auto
    from "4.IH"(1) [OF None c l] show ?thesis
      by (simp add: n' pdf_files_entries_sum pdf_entry_def cs)
  next
    case (Some c)
    with "4.prems" obtain c' where c': "place (e # ds) x c = Inr c'"
      and n': "n' = Dir (AList.update d c' es)"
      by (auto split: sum.splits)
    from place_is_dir [OF c'] obtain cs cs' where cs: "c = Dir cs" "c' = Dir cs'" by auto
    from "4.IH"(2) [OF Some c' l] sum_list_update [OF Some, of pdf_entry c']
    show ?thesis
      by (simp add: n' pdf_files_entries_sum pdf_entry_def cs)
  qed
qed

lemma place_all_file_count:
  "place_all fs K = Inr K' \<Longrightarrow> file_count K' = file_count K + length fs"
proof (induction fs arbitrary: K)
  case Nil
  then show ?case by simp
next
  case (Cons f fs)
  then obtain K1 where K1: "place (fst f) (snd f) K = Inr K1" "place_all fs K1 = Inr K'"
    by (auto split: sum.splits)
  from place_file_count [OF K1(1)] Cons.IH [OF K1(2)] show ?case by simp
qed

lemma place_all_pdf_entry:
  "place_all fs K = Inr K' \<Longrightarrow> \<forall>f \<in> set fs. last (fst f) \<noteq> ''.pdf'' \<Longrightarrow>
   pdf_entry (d, K') = pdf_entry (d, K) + length (filter (\<lambda>f. is_pdf (last (fst f))) fs)"
proof (induction fs arbitrary: K)
  case Nil
  then show ?case by simp
next
  case (Cons f fs)
  then obtain K1 where K1: "place (fst f) (snd f) K = Inr K1" "place_all fs K1 = Inr K'"
    by (auto split: sum.splits)
  from place_is_dir [OF K1(1)] obtain ks ks1 where ks: "K = Dir ks" "K1 = Dir ks1" by auto
  from Cons.prems(2) have l: "last (fst f) \<noteq> ''.pdf''" and r: "\<forall>f \<in> set fs. last (fst f) \<noteq> ''.pdf''"
    by simp_all
  from place_pdf_files [OF K1(1) l] have "pdf_entry (d, K1) =
      pdf_entry (d, K) + (if is_pdf (last (fst f)) then 1 else 0)"
    by (simp add: pdf_entry_def ks)
  with Cons.IH [OF K1(2) r] show ?case by simp
qed

lemma entries_split_count:
  "sum_list (map (\<lambda>e. case snd e of File x \<Rightarrow> 1 | Dir ds \<Rightarrow> 0) es) +
   sum_list (map (\<lambda>e. case snd e of File x \<Rightarrow> 0 | Dir ds \<Rightarrow> file_count_entries ds) es) =
   file_count_entries es"
  by (induction es) (auto split: node.splits)

lemma rglob_files_length:
  fixes n :: "'a node" and es es' :: "(string \<times> 'a node) list"
  shows "length (rglob_files n) = (case n of File x \<Rightarrow> 0 | Dir ds \<Rightarrow> file_count_entries ds)"
    and "length (files_here es) =
           sum_list (map (\<lambda>e. case snd e of File x \<Rightarrow> 1 | Dir ds \<Rightarrow> 0) es)"
    and "length (files_below es') =
           sum_list (map (\<lambda>e. case snd e of File x \<Rightarrow> 0 | Dir ds \<Rightarrow> file_count_entries ds) es')"
proof (induction n and es and es' rule: rglob_files_files_here_files_below.induct)
  case (2 es)
  then show ?case using entries_split_count [of es] by simp
qed (auto split: node.splits)

lemma entries_split_pdf:
  "sum_list (map (\<lambda>e. case snd e of File x \<Rightarrow> if is_pdf (fst e) then 1 else 0 | Dir ds \<Rightarrow> 0) es) +
   sum_list (map (\<lambda>e. case snd e of File x \<Rightarrow> 0 | Dir ds \<Rightarrow> pdf_files_entries ds) es) =
   pdf_files_entries es"
  by (induction es) (auto split: node.splits)

lemma filter_map_prefix:
  "\<forall>f \<in> set xs. fst f \<noteq> [] \<Longrightarrow>
   filter (\<lambda>f. P (last (fst f))) (map (\<lambda>f. (d # fst f, snd f)) xs) =
   map (\<lambda>f. (d # fst f, snd f)) (filter (\<lambda>f. P (last (fst f))) xs)"
  by (induction xs) auto

lemma rglob_files_pdf:
  fixes n :: "'a node" and es es' :: "(string \<times> 'a node) list"
  shows "length (filter (\<lambda>f. is_pdf (last (fst f))) (rglob_files n)) = pdf_files n"
    and "length (filter (\<lambda>f. is_pdf (last (fst f))) (files_here es)) =
           sum_list (map (\<lambda>e. case snd e of File x \<Rightarrow> if is_pdf (fst e) then 1 else 0
                                | Dir ds \<Rightarrow> 0) es)"
    and "length (filter (\<lambda>f. is_pdf (last (fst f))) (files_below es')) =
           sum_list (map (\<lambda>e. case snd e of File x \<Rightarrow> 0 | Dir ds \<Rightarrow> pdf_files_entries ds) es')"
proof (induction n and es and es' rule: rglob_files_files_here_files_below.induct)
  case (1 x)
  show ?case by simp
next
  case (2 es)
  then show ?case using entries_split_pdf [of es] by simp
next
  case 3
  show ?case by simp
next
  case (4 e es)
  then show ?case by (auto split: node.splits)
next
  case 5
  show ?case by simp
next
  case (6 e es)
  show ?case
  proof (cases "snd e")
    case (File x)
    with 6 show ?thesis by simp
  next
    case (Dir ds)
    let ?P = "\<lambda>f :: string list \<times> 'a. is_pdf (last (fst f))"
    let ?g = "\<lambda>f :: string list \<times> 'a. (fst e # fst f, snd f)"
    have "filter ?P (map ?g (rglob_files (Dir ds))) = map ?g (filter ?P (rglob_files (Dir ds)))"
      using rglob_files_nonempty [of "Dir ds"] by (rule filter_map_prefix)
    then have len: "length (filter ?P (map ?g (rglob_files (Dir ds)))) =
        length (filter ?P (rglob_files (Dir ds)))"
      by (simp only: length_map)
    have a: "files_below (e # es) = map ?g (rglob_files (Dir ds)) @ files_below es"
      using Dir by simp
    have "length (filter ?P (files_below (e # es))) =
        length (filter ?P (rglob_files (Dir ds))) + length (filter ?P (files_below es))"
      unfolding a filter_append length_append len ..
    also have "length (filter ?P (rglob_files (Dir ds))) = pdf_files_entries ds"
      using "6.IH"(2) [OF Dir] by simp
    also have "length (filter ?P (files_below es)) =
        sum_list (map (\<lambda>e. case snd e of File x \<Rightarrow> 0 | Dir ds \<Rightarrow> pdf_files_entries ds) es)"
      using "6.IH"(3) [OF Dir] .
    finally show ?thesis by (simp add: Dir)
  qed
qed

section \<open>A merge loses no file\<close>

lemma merge_success_dir:
  assumes "merge_company_folders out c1 c2 = (True, out')"
    and "merge_plan out c1 c2 = Some (kn, mn, M)"
  shows "\<exists>ms. M = Dir ms"
proof (cases M)
  case (File y)
  from merge_plan_cases [OF assms(2)] obtain es where "out = Dir es" "map_of es mn = Some M"
    by auto
  with File have "rmtree mn out = Inl OSError" by (simp add: rmtree_def)
  with assms File show ?thesis
    by (simp add: merge_company_folders_def)
next
  case (Dir ms)
  then show ?thesis by simp
qed

text \<open>
  Claim C6, as amended. Let a merge of two different folders succeed in an output
  directory whose entries have different names. Then the output directory holds as many
  files as before, and the folder that was merged no longer exists. If no file of that
  folder is called \<^verbatim>\<open>.pdf\<close>, the number of files whose name matches \<^verbatim>\<open>*.pdf\<close> is the same
  as before, too.
\<close>

theorem merge_conserves_files:
  assumes "merge_company_folders out c1 c2 = (True, out')"
    and "folder_name c1 \<noteq> folder_name c2"
    and "merge_plan out c1 c2 = Some (kn, mn, M)"
    and "distinct_names out"
  shows "file_count out' = file_count out \<and> lookup out' [mn] = None \<and>
         ((\<forall>f \<in> set (rglob_files M). last (fst f) \<noteq> ''.pdf'') \<longrightarrow>
            pdf_files out' = pdf_files out)"
proof -
  from merge_success [OF assms(1,2)] assms(3) obtain es K K' where
    s: "out = Dir es" "kn \<noteq> mn" "map_of es kn = Some K" "map_of es mn = Some M"
    "place_all (rglob_files M) K = Inr K'"
    "out' = Dir (AList.update kn K' (AList.delete mn es))"
    by auto
  from merge_success_dir [OF assms(1,3)] obtain ms where ms: "M = Dir ms" by blast
  from assms(4) s(1) have d: "distinct (map fst es)" by (simp add: distinct_names_def)
  let ?es0 = "AList.delete mn es"
  have k0: "map_of ?es0 kn = Some K" using s(2,3) by simp
  have gone: "lookup out' [mn] = None"
    using s(2) by (simp add: s(6) update_conv' delete_conv')
  have files: "file_count out' = file_count out"
  proof -
    let ?w = "\<lambda>e :: string \<times> 'a node. file_count (snd e)"
    have "sum_list (map ?w (AList.update kn K' ?es0)) + ?w (kn, K) =
        sum_list (map ?w ?es0) + ?w (kn, K')"
      using k0 by (rule sum_list_update)
    moreover have "sum_list (map ?w ?es0) + ?w (mn, M) = sum_list (map ?w es)"
      using d s(4) by (rule sum_list_delete)
    moreover have "file_count K' = file_count K + file_count M"
      using place_all_file_count [OF s(5)] rglob_files_length(1) [of M] by (simp add: ms)
    ultimately show ?thesis
      by (simp add: s(1,6) file_count_entries_sum)
  qed
  have pdfs: "pdf_files out' = pdf_files out"
    if np: "\<forall>f \<in> set (rglob_files M). last (fst f) \<noteq> ''.pdf''"
  proof -
    have "sum_list (map pdf_entry (AList.update kn K' ?es0)) + pdf_entry (kn, K) =
        sum_list (map pdf_entry ?es0) + pdf_entry (kn, K')"
      using k0 by (rule sum_list_update)
    moreover have "sum_list (map pdf_entry ?es0) + pdf_entry (mn, M) = sum_list (map pdf_entry es)"
      using d s(4) by (rule sum_list_delete)
    moreover have "pdf_entry (kn, K') = pdf_entry (kn, K) + pdf_entry (mn, M)"
      using place_all_pdf_entry [OF s(5) np, of kn] rglob_files_pdf(1) [of M]
      by (simp add: ms pdf_entry_def)
    ultimately show ?thesis
      by (simp add: s(1,6) pdf_files_entries_sum)
  qed
  from files gone pdfs show ?thesis by blast
qed

theorem merge_conserves_files_witness:
  "merge_company_folders out_ab c_ab c_ab_inc = (True, out_ab_merged) \<and>
   file_count out_ab = 3 \<and> file_count out_ab_merged = 3 \<and>
   lookup out_ab_merged [''Ab''] = None \<and>
   pdf_files out_ab = 3 \<and> pdf_files out_ab_merged = pdf_files out_ab"
proof -
  have d: "distinct_names out_ab"
    unfolding out_ab_def distinct_names_def by simp
  have n: "\<forall>f \<in> set (rglob_files (Dir [(''x.pdf'', File (1::nat))])). last (fst f) \<noteq> ''.pdf''"
    by simp
  have c: "file_count out_ab = 3" "pdf_files out_ab = 3"
    unfolding out_ab_def by code_simp+
  from merge_conserves_files [OF merge_ab folder_names_ab merge_plan_ab d] n c
  have "file_count out_ab_merged = 3" "lookup out_ab_merged [''Ab''] = None"
    "pdf_files out_ab_merged = pdf_files out_ab"
    by simp_all
  with merge_ab c show ?thesis by blast
qed

text \<open>
  The number of files matching \<^verbatim>\<open>*.pdf\<close> is not kept in every merge. For a file called
  \<^verbatim>\<open>.pdf\<close>, \<^verbatim>\<open>pathlib\<close> gives the stem \<^verbatim>\<open>.pdf\<close> and an empty suffix, so that a collision
  renames it to \<^verbatim>\<open>.pdf_1\<close>, which the pattern no longer matches. The folders \<^verbatim>\<open>Ab\<close> and
  \<^verbatim>\<open>Ab_Inc\<close> below are duplicates for the constructor of the normalizer, which merges
  them: two such files before the merge, one after it.
\<close>

definition st_ab :: normalizer where
  \<comment> \<open>the registry that a scan of \<open>out_dot_merged\<close> gives\<close>
  "st_ab = \<lparr>similarity_threshold = 0.8,
     company_mappings =
       [(''ab'', \<lparr>canonical_name = ''Ab'', variations = [''Ab''], folder_name = ''Ab''\<rparr>)],
     normalized_to_canonical = [(''ab'', ''Ab'')]\<rparr>"

definition out_dot :: "nat node" where
  "out_dot = Dir [(''Ab'', Dir [(''.pdf'', File 1)]), (''Ab_Inc'', Dir [(''.pdf'', File 2)])]"

definition out_dot_merged :: "nat node" where
  "out_dot_merged = Dir [(''Ab'', Dir [(''.pdf'', File 1), (''.pdf_1'', File 2)])]"

theorem merge_pdf_count_counterexample:
  "init_normalizer (Some (Some out_dot)) 0.8 True = Inr (st_ab, Some out_dot_merged) \<and>
   merge_company_folders out_dot c_ab c_ab_inc = (True, out_dot_merged) \<and>
   pdf_files out_dot = 2 \<and> pdf_files out_dot_merged = 1 \<and>
   rglob_pdf out_dot = 2 \<and> rglob_pdf out_dot_merged = 1 \<and>
   file_count out_dot = 2 \<and> file_count out_dot_merged = 2"
  unfolding out_dot_def out_dot_merged_def c_ab_def c_ab_inc_def st_ab_def by code_simp

end
